theory Spec2Isabelle
  imports Main "HOL-Library.Sublist"
begin

section \<open>The publish/subscribe dispatcher of src/app.ts\<close>

text \<open>
  The dispatcher (class \<open>PublishSubscribeService\<close>, lines 116-159) is generic in the
  events and subscribers it is given: \<open>IEvent\<close> and \<open>ISubscriber\<close> are interfaces.
  The model is therefore polymorphic in the type \<open>'e\<close> of events, the type \<open>'h\<close> of
  subscriber references (compared by identity in the source, by equality here) and the
  type \<open>'u\<close> of everything else the handlers can reach (machines, private sets, the
  console).

  A subscriber can reach the dispatcher only through its three public methods, all of
  which return \<open>void\<close>; the fields are private. What one call of \<open>handle\<close> does is
  therefore: a new value of the rest of the heap, the service calls it made, in order, and
  whether it ended by raising. The model writes the new heap first and performs the calls
  after it. During a drain this order cannot be observed: every call a handler makes
  finds the flag \<open>processing\<close> set, and then neither reads nor writes the rest of the
  heap (lemmas \<open>calls_while_processing\<close> and \<open>perform_all_fields\<close>).
\<close>

datatype ('e, 'h) call = Publish 'e | Subscribe string 'h | Unsubscribe string 'h

type_synonym ('e, 'h, 'u) handlers = "'h \<Rightarrow> 'e \<Rightarrow> 'u \<Rightarrow> 'u \<times> ('e, 'h) call list \<times> bool"

text \<open>
  The fields \<open>subscribers\<close>, \<open>queue\<close> and \<open>processing\<close> are those of lines 117-119.
  \<open>user\<close> is the rest of the heap. The last three fields are observation logs that the
  program does not have; nothing reads them:
  \<^item> \<open>enqueued\<close> records every \<open>this.queue.push(event)\<close> of line 128;
  \<^item> \<open>dispatched\<close> records every event taken by \<open>this.queue.shift()\<close> at line 133,
    with the copy \<open>[...list]\<close> that line 136 iterates over (the empty list when the
    loop continues at line 135, or when \<open>next.type()\<close> raises at line 134);
  \<^item> \<open>invoked\<close> records every call \<open>sub.handle(next)\<close> of line 138.
\<close>

record ('e, 'h, 'u) service =
  subscribers :: "string \<rightharpoonup> 'h list"
  queue :: "'e list"
  processing :: bool
  user :: 'u
  enqueued :: "'e list"
  dispatched :: "('e \<times> 'h list) list"
  invoked :: "('h \<times> 'e) list"

datatype outcome = Returned | Raised

text \<open>Lines 121-125.\<close>

definition subscribe :: "string \<Rightarrow> 'h \<Rightarrow> ('e, 'h, 'u) service \<Rightarrow> ('e, 'h, 'u) service" where
  "subscribe ty handler s =
     (let list = (case subscribers s ty of None \<Rightarrow> [] | Some l \<Rightarrow> l)
      in s\<lparr>subscribers := (subscribers s)(ty \<mapsto> list @ [handler])\<rparr>)"

text \<open>Lines 149-158.\<close>

definition unsubscribe :: "string \<Rightarrow> 'h \<Rightarrow> ('e, 'h, 'u) service \<Rightarrow> ('e, 'h, 'u) service" where
  "unsubscribe ty handler s =
     (case subscribers s ty of
        None \<Rightarrow> s
      | Some list \<Rightarrow>
          (let filtered = filter (\<lambda>h. h \<noteq> handler) list
           in if length filtered = 0
              then s\<lparr>subscribers := (subscribers s)(ty := None)\<rparr>
              else s\<lparr>subscribers := (subscribers s)(ty \<mapsto> filtered)\<rparr>))"

text \<open>
  Lines 127-147. \<open>T\<close> is the method \<open>type()\<close> of the events (\<open>None\<close> when it raises:
  line 134 calls it outside the inner \<open>try\<close>), \<open>H\<close> the method \<open>handle\<close> of the
  subscribers. The \<open>while\<close> loop of line 132 may run forever, so the first argument
  bounds the number of its iterations and \<open>None\<close> is "did not return within the bound".

  \<open>publish\<close> is the method; \<open>drain\<close> is the loop of lines 132-143; \<open>dispatch\<close> is the
  \<open>for\<close> loop of lines 136-142 over the copied list; \<open>calls\<close> performs the service calls
  a handler makes, each through the method itself. A call that raises ends the handler;
  the \<open>catch\<close> of line 139 then discards the exception, as it discards the handler's own.
\<close>

function (sequential) publish :: "nat \<Rightarrow> ('e \<Rightarrow> string option) \<Rightarrow> ('e, 'h, 'u) handlers \<Rightarrow> 'e \<Rightarrow>
      ('e, 'h, 'u) service \<Rightarrow> (('e, 'h, 'u) service \<times> outcome) option"
and drain :: "nat \<Rightarrow> ('e \<Rightarrow> string option) \<Rightarrow> ('e, 'h, 'u) handlers \<Rightarrow>
      ('e, 'h, 'u) service \<Rightarrow> (('e, 'h, 'u) service \<times> outcome) option"
and dispatch :: "nat \<Rightarrow> ('e \<Rightarrow> string option) \<Rightarrow> ('e, 'h, 'u) handlers \<Rightarrow> 'e \<Rightarrow> 'h list \<Rightarrow>
      ('e, 'h, 'u) service \<Rightarrow> ('e, 'h, 'u) service option"
and calls :: "nat \<Rightarrow> ('e \<Rightarrow> string option) \<Rightarrow> ('e, 'h, 'u) handlers \<Rightarrow> ('e, 'h) call list \<Rightarrow>
      ('e, 'h, 'u) service \<Rightarrow> ('e, 'h, 'u) service option"
where
  "publish n T H event s =
     (let s1 = s\<lparr>queue := queue s @ [event], enqueued := enqueued s @ [event]\<rparr>
      in if processing s1 then Some (s1, Returned)
         else (case drain n T H (s1\<lparr>processing := True\<rparr>) of
                 None \<Rightarrow> None
               | Some (s2, r) \<Rightarrow> Some (s2\<lparr>processing := False\<rparr>, r)))"
| "drain 0 T H s = None"
| "drain (Suc n) T H s =
     (case queue s of
        [] \<Rightarrow> Some (s, Returned)
      | next # rest \<Rightarrow>
          (case T next of
             None \<Rightarrow> Some (s\<lparr>queue := rest, dispatched := dispatched s @ [(next, [])]\<rparr>, Raised)
           | Some ty \<Rightarrow>
               (case subscribers s ty of
                  None \<Rightarrow> drain n T H (s\<lparr>queue := rest, dispatched := dispatched s @ [(next, [])]\<rparr>)
                | Some list \<Rightarrow>
                    if length list = 0
                    then drain n T H (s\<lparr>queue := rest, dispatched := dispatched s @ [(next, [])]\<rparr>)
                    else (case dispatch n T H next list
                                 (s\<lparr>queue := rest, dispatched := dispatched s @ [(next, list)]\<rparr>) of
                            None \<Rightarrow> None
                          | Some s2 \<Rightarrow> drain n T H s2))))"
| "dispatch n T H next [] s = Some s"
| "dispatch n T H next (sub # subs) s =
     (case H sub next (user s) of
        (u, cs, thrown) \<Rightarrow>
          (case calls n T H cs (s\<lparr>user := u, invoked := invoked s @ [(sub, next)]\<rparr>) of
             None \<Rightarrow> None
           | Some s1 \<Rightarrow> dispatch n T H next subs s1))"
| "calls n T H [] s = Some s"
| "calls n T H (Publish e # cs) s =
     (case publish n T H e s of
        None \<Rightarrow> None
      | Some (s1, Returned) \<Rightarrow> calls n T H cs s1
      | Some (s1, Raised) \<Rightarrow> Some s1)"
| "calls n T H (Subscribe ty h # cs) s = calls n T H cs (subscribe ty h s)"
| "calls n T H (Unsubscribe ty h # cs) s = calls n T H cs (unsubscribe ty h s)"
  by pat_completeness auto

text \<open>
  Every cycle of calls goes through an iteration of \<open>drain\<close>, which lowers the bound;
  between two iterations the calls go from \<open>dispatch\<close> to \<open>calls\<close> to \<open>publish\<close> to
  \<open>drain\<close>, and the two inner loops shorten their list.
\<close>

termination
  by (relation "measures
        [case_sum (case_sum (\<lambda>p. fst p) (\<lambda>p. fst p)) (case_sum (\<lambda>p. fst p) (\<lambda>p. fst p)),
         case_sum (case_sum (\<lambda>p. Suc 0) (\<lambda>p. 0)) (case_sum (\<lambda>p. 3) (\<lambda>p. 2)),
         case_sum (case_sum (\<lambda>p. 0) (\<lambda>p. 0))
           (case_sum (\<lambda>p. length (fst (snd (snd (snd (snd p))))))
                     (\<lambda>p. length (fst (snd (snd (snd p))))))]")
     simp_all

text \<open>\<open>sequence.forEach(e => pubSubService.publish(e))\<close>, lines 259 and 267: an exception
  that leaves \<open>publish\<close> ends the iteration.\<close>

fun publish_all :: "nat \<Rightarrow> ('e \<Rightarrow> string option) \<Rightarrow> ('e, 'h, 'u) handlers \<Rightarrow> 'e list \<Rightarrow>
      ('e, 'h, 'u) service \<Rightarrow> (('e, 'h, 'u) service \<times> outcome) option" where
  "publish_all n T H [] s = Some (s, Returned)"
| "publish_all n T H (e # es) s =
     (case publish n T H e s of
        None \<Rightarrow> None
      | Some (s1, Raised) \<Rightarrow> Some (s1, Raised)
      | Some (s1, Returned) \<Rightarrow> publish_all n T H es s1)"

text \<open>A service as line 234 constructs it, with \<open>u\<close> the rest of the heap.\<close>

definition new_service :: "'u \<Rightarrow> ('e, 'h, 'u) service" where
  "new_service u =
     \<lparr>subscribers = Map.empty, queue = [], processing = False, user = u,
      enqueued = [], dispatched = [], invoked = []\<rparr>"

section \<open>Events, machines and the subscribers of the program\<close>

subsection \<open>Numbers\<close>

text \<open>
  Stock levels and quantities are JavaScript numbers, that is IEEE-754 doubles. The
  specification and the program use integer values only, and so does the model: a
  quantity or a threshold is an integer, and a stock level is an integer or, after an
  overflow, an infinity. Fractions are outside the model, and so is the sign of zero,
  which no comparison of the program sees.

  The sum or difference of two integer-valued doubles is an integer, and \<open>+=\<close> and \<open>-=\<close>
  (lines 85 and 101) store the double nearest to it, a tie going to the even significand.
  \<open>ulp m\<close> is the distance between neighbouring doubles at the magnitude \<open>m\<close>: 1 below
  \<open>2^53\<close>, then doubling with every binary order of magnitude. \<open>round_int\<close> rounds a
  magnitude to a multiple of it (\<open>q\<close> is the 53-bit significand), and \<open>to_number\<close> gives
  the stored value, an infinity from \<open>2^1024\<close> on. Up to \<open>2^53\<close> every integer is a double
  and the arithmetic is exact.
\<close>

datatype number = Fin int | PosInf | NegInf

function ulp :: "int \<Rightarrow> int" where
  "ulp m = (if m < 2 ^ 53 then 1 else 2 * ulp (m div 2))"
  by pat_completeness auto
termination
  by (relation "measure (\<lambda>m. nat m)") auto

declare ulp.simps [simp del]

definition round_int :: "int \<Rightarrow> int" where
  "round_int m =
     (let u = ulp m; q = m div u; r = m mod u
      in if 2 * r < u then q * u
         else if u < 2 * r then (q + 1) * u
         else if even q then q * u else (q + 1) * u)"

definition to_number :: "int \<Rightarrow> number" where
  "to_number x =
     (let m = round_int \<bar>x\<bar>
      in if 2 ^ 1024 \<le> m then (if x < 0 then NegInf else PosInf)
         else Fin (if x < 0 then - m else m))"

text \<open>\<open>a + b\<close>, \<open>a - b\<close> and \<open>a < b\<close> for a stock level \<open>a\<close> and an integer \<open>b\<close>.\<close>

fun number_add :: "number \<Rightarrow> int \<Rightarrow> number" where
  "number_add (Fin a) b = to_number (a + b)"
| "number_add PosInf b = PosInf"
| "number_add NegInf b = NegInf"

fun number_sub :: "number \<Rightarrow> int \<Rightarrow> number" where
  "number_sub (Fin a) b = to_number (a - b)"
| "number_sub PosInf b = PosInf"
| "number_sub NegInf b = NegInf"

fun number_less :: "number \<Rightarrow> int \<Rightarrow> bool" where
  "number_less (Fin a) t = (a < t)"
| "number_less PosInf t = False"
| "number_less NegInf t = True"

text \<open>
  An integer is a number of the program when it is a double, and it is \<open>safe\<close> when its
  magnitude is at most \<open>2^53 - 1\<close> (\<open>Number.MAX_SAFE_INTEGER\<close>).
\<close>

definition is_number :: "int \<Rightarrow> bool" where
  "is_number x \<longleftrightarrow> to_number x = Fin x"

definition safe :: "int \<Rightarrow> bool" where
  "safe x \<longleftrightarrow> \<bar>x\<bar> \<le> 2 ^ 53 - 1"

subsection \<open>Events\<close>

text \<open>
  The four event classes of lines 19-71. The quantity of a sale or refill event is an
  integer; it stands for an event of the program when it is a number (\<open>is_number\<close>).
\<close>

datatype event =
    MachineSaleEvent int string
  | MachineRefillEvent int string
  | LowStockWarningEvent string
  | StockLevelOkEvent string

fun machineId :: "event \<Rightarrow> string" where
  "machineId (MachineSaleEvent sold m) = m"
| "machineId (MachineRefillEvent refill m) = m"
| "machineId (LowStockWarningEvent m) = m"
| "machineId (StockLevelOkEvent m) = m"

fun type :: "event \<Rightarrow> string" where
  "type (MachineSaleEvent sold m) = ''sale''"
| "type (MachineRefillEvent refill m) = ''refill''"
| "type (LowStockWarningEvent m) = ''low-stock''"
| "type (StockLevelOkEvent m) = ''stock-ok''"

text \<open>
  \<open>getSoldQuantity\<close> and \<open>getRefillQuantity\<close> exist on one class each. The subscribers
  reach them through an unchecked cast (lines 82 and 98); on any other class the call
  would raise a \<open>TypeError\<close>, which is \<open>None\<close> here.
\<close>

fun getSoldQuantity :: "event \<Rightarrow> int option" where
  "getSoldQuantity (MachineSaleEvent sold m) = Some sold"
| "getSoldQuantity _ = None"

fun getRefillQuantity :: "event \<Rightarrow> int option" where
  "getRefillQuantity (MachineRefillEvent refill m) = Some refill"
| "getRefillQuantity _ = None"

text \<open>Lines 107-114. The field \<open>id\<close> of the source is \<open>id_m\<close> here.\<close>

record Machine =
  id_m :: string
  stockLevel :: number

definition new_Machine :: "string \<Rightarrow> Machine" where
  "new_Machine i = \<lparr>id_m = i, stockLevel = Fin 10\<rparr>"

text \<open>
  The part of the heap the subscribers of the program reach: the array \<open>machines\<close> of
  line 227, which the program injects into all three stock subscribers, the private set
  \<open>below\<close> of the threshold watcher (line 162), and the lines written by
  \<open>console.log\<close>.
\<close>

record world =
  machines :: "Machine list"
  below :: "string set"
  console :: "string list"

text \<open>
  \<open>Array.prototype.find\<close> returns a reference to the first element that satisfies the
  predicate, or \<open>undefined\<close>. The position of that element stands for the reference.
\<close>

fun find_pos :: "('a \<Rightarrow> bool) \<Rightarrow> 'a list \<Rightarrow> nat option" where
  "find_pos P [] = None"
| "find_pos P (x # xs) = (if P x then Some 0 else map_option Suc (find_pos P xs))"

datatype subscriber = SaleSubscriber | RefillSubscriber | StockWarning | AlertLogger

type_synonym handled = "world \<times> (event, subscriber) call list \<times> bool"

text \<open>Lines 80-86.\<close>

definition MachineSaleSubscriber_handle :: "event \<Rightarrow> world \<Rightarrow> handled" where
  "MachineSaleSubscriber_handle event w =
     (if type event \<noteq> ''sale'' then (w, [], False)
      else (case find_pos (\<lambda>m. id_m m = machineId event) (machines w) of
              None \<Rightarrow> (w, [], False)
            | Some i \<Rightarrow>
                (case getSoldQuantity event of
                   None \<Rightarrow> (w, [], True)
                 | Some sold \<Rightarrow>
                     (w\<lparr>machines := (machines w)
                          [i := (machines w ! i)
                             \<lparr>stockLevel := number_sub (stockLevel (machines w ! i)) sold\<rparr>]\<rparr>,
                      [], False))))"

text \<open>Lines 96-102.\<close>

definition MachineRefillSubscriber_handle :: "event \<Rightarrow> world \<Rightarrow> handled" where
  "MachineRefillSubscriber_handle event w =
     (if type event \<noteq> ''refill'' then (w, [], False)
      else (case find_pos (\<lambda>m. id_m m = machineId event) (machines w) of
              None \<Rightarrow> (w, [], False)
            | Some i \<Rightarrow>
                (case getRefillQuantity event of
                   None \<Rightarrow> (w, [], True)
                 | Some refill \<Rightarrow>
                     (w\<lparr>machines := (machines w)
                          [i := (machines w ! i)
                             \<lparr>stockLevel := number_add (stockLevel (machines w ! i)) refill\<rparr>]\<rparr>,
                      [], False))))"

text \<open>The constructor of lines 163-173 computes the initial set; its third parameter
  defaults to 3.\<close>

definition default_threshold :: int where
  "default_threshold = 3"

definition new_StockWarningSubscriber :: "Machine list \<Rightarrow> int \<Rightarrow> string set" where
  "new_StockWarningSubscriber targetMachines threshold =
     set (map id_m (filter (\<lambda>m. number_less (stockLevel m) threshold) targetMachines))"

text \<open>Lines 175-188.\<close>

definition StockWarningSubscriber_handle :: "int \<Rightarrow> event \<Rightarrow> world \<Rightarrow> handled" where
  "StockWarningSubscriber_handle threshold event w =
     (if type event \<noteq> ''sale'' \<and> type event \<noteq> ''refill'' then (w, [], False)
      else (case find_pos (\<lambda>m. id_m m = machineId event) (machines w) of
              None \<Rightarrow> (w, [], False)
            | Some i \<Rightarrow>
                (let machine = machines w ! i;
                     isBelow = number_less (stockLevel machine) threshold;
                     wasBelow = id_m machine \<in> below w
                 in if isBelow \<and> \<not> wasBelow
                    then (w\<lparr>below := insert (id_m machine) (below w)\<rparr>,
                          [Publish (LowStockWarningEvent (id_m machine))], False)
                    else if \<not> isBelow \<and> wasBelow
                    then (w\<lparr>below := below w - {id_m machine}\<rparr>,
                          [Publish (StockLevelOkEvent (id_m machine))], False)
                    else (w, [], False))))"

text \<open>Lines 192-198.\<close>

definition StockAlertLogger_handle :: "event \<Rightarrow> world \<Rightarrow> handled" where
  "StockAlertLogger_handle event w =
     (if type event = ''low-stock''
      then (w\<lparr>console := console w @ [''LOW STOCK WARNING for machine ID: '' @ machineId event]\<rparr>,
            [], False)
      else if type event = ''stock-ok''
      then (w\<lparr>console := console w @ [''STOCK LEVEL OK for machine ID: '' @ machineId event]\<rparr>,
            [], False)
      else (w, [], False))"

text \<open>The method \<open>handle\<close> of each of the four subscriber objects of lines 230-244;
  \<open>threshold\<close> is the read-only field of the threshold watcher.\<close>

fun handle :: "int \<Rightarrow> subscriber \<Rightarrow> event \<Rightarrow> world \<Rightarrow> handled" where
  "handle threshold SaleSubscriber event w = MachineSaleSubscriber_handle event w"
| "handle threshold RefillSubscriber event w = MachineRefillSubscriber_handle event w"
| "handle threshold StockWarning event w = StockWarningSubscriber_handle threshold event w"
| "handle threshold AlertLogger event w = StockAlertLogger_handle event w"

text \<open>Lines 227-246: the machines, the subscribers and the six subscriptions, in the
  program's order. \<open>wire\<close> is the same wiring over any array of machines.\<close>

definition wire :: "Machine list \<Rightarrow> (event, subscriber, world) service" where
  "wire ms =
     subscribe ''stock-ok'' AlertLogger
      (subscribe ''low-stock'' AlertLogger
        (subscribe ''refill'' StockWarning
          (subscribe ''sale'' StockWarning
            (subscribe ''refill'' RefillSubscriber
              (subscribe ''sale'' SaleSubscriber
                (new_service
                  \<lparr>machines = ms,
                   below = new_StockWarningSubscriber ms default_threshold,
                   console = []\<rparr>))))))"

definition program_machines :: "Machine list" where
  "program_machines = [new_Machine ''001'', new_Machine ''002'', new_Machine ''003'']"

definition program :: "(event, subscriber, world) service" where
  "program = wire program_machines"

text \<open>The literal sequence of the \<open>--test\<close> mode, lines 252-258.\<close>

definition test_sequence :: "event list" where
  "test_sequence =
     [MachineSaleEvent 2 ''001'', MachineSaleEvent 2 ''001'', MachineSaleEvent 2 ''001'',
      MachineSaleEvent 2 ''001'', MachineRefillEvent 3 ''001'']"


section \<open>Derived notions used in the proofs\<close>

text \<open>The methods of the four event classes never raise.\<close>

definition event_type :: "event \<Rightarrow> string option" where
  "event_type e = Some (type e)"

text \<open>
  \<open>this.subscribers.get(type) ?? []\<close>, as line 122 reads the table. The loop of
  \<open>publish\<close> treats an absent list and an empty one alike (line 135).
\<close>


definition subscribers_of :: "('e, 'h, 'u) service \<Rightarrow> string \<Rightarrow> 'h list" where
  "subscribers_of s ty = (case subscribers s ty of None \<Rightarrow> [] | Some list \<Rightarrow> list)"

text \<open>
  What the service calls of a handler do to a service whose flag \<open>processing\<close> is set:
  \<open>publish\<close> then returns at line 129. \<open>published\<close> are the events among the calls.
\<close>

fun perform :: "('e, 'h) call \<Rightarrow> ('e, 'h, 'u) service \<Rightarrow> ('e, 'h, 'u) service" where
  "perform (Publish e) s = s\<lparr>queue := queue s @ [e], enqueued := enqueued s @ [e]\<rparr>"
| "perform (Subscribe ty h) s = subscribe ty h s"
| "perform (Unsubscribe ty h) s = unsubscribe ty h s"

fun perform_all :: "('e, 'h) call list \<Rightarrow> ('e, 'h, 'u) service \<Rightarrow> ('e, 'h, 'u) service" where
  "perform_all [] s = s"
| "perform_all (c # cs) s = perform_all cs (perform c s)"

fun published :: "('e, 'h) call list \<Rightarrow> 'e list" where
  "published [] = []"
| "published (Publish e # cs) = e # published cs"
| "published (c # cs) = published cs"

text \<open>
  The \<open>for\<close> loop of lines 136-142 and one iteration of the \<open>while\<close> loop, for a service
  whose flag is set. The lemmas \<open>dispatch_while_processing\<close> and \<open>drain_iteration\<close> below
  prove that \<open>dispatch\<close> and \<open>drain\<close> compute exactly these.
\<close>

fun deliver :: "('e, 'h, 'u) handlers \<Rightarrow> 'e \<Rightarrow> 'h list \<Rightarrow> ('e, 'h, 'u) service \<Rightarrow> ('e, 'h, 'u) service" where
  "deliver H next [] s = s"
| "deliver H next (sub # subs) s =
     (case H sub next (user s) of
        (u, cs, thrown) \<Rightarrow>
          deliver H next subs (perform_all cs (s\<lparr>user := u, invoked := invoked s @ [(sub, next)]\<rparr>)))"

definition iteration :: "('e, 'h, 'u) handlers \<Rightarrow> 'e \<Rightarrow> string \<Rightarrow> ('e, 'h, 'u) service \<Rightarrow> ('e, 'h, 'u) service" where
  "iteration H next ty s =
     deliver H next (subscribers_of s ty)
       (s\<lparr>queue := tl (queue s), dispatched := dispatched s @ [(next, subscribers_of s ty)]\<rparr>)"

text \<open>
  The calls of \<open>handle\<close> that a log of dispatched events stands for, when every event is
  handled by all the subscribers of its copied list, in order, before the next event is
  touched. A service is \<open>fifo\<close> when its logs agree: the events enqueued so far are the
  events dispatched so far, in the same order, followed by the pending queue; and the
  handlers were invoked event by event.
\<close>

definition grouped :: "('e \<times> 'h list) list \<Rightarrow> ('h \<times> 'e) list" where
  "grouped ds = concat (map (\<lambda>(e, list). map (\<lambda>h. (h, e)) list) ds)"

definition fifo :: "('e, 'h, 'u) service \<Rightarrow> bool" where
  "fifo s \<longleftrightarrow> enqueued s = map fst (dispatched s) @ queue s \<and> invoked s = grouped (dispatched s)"


text \<open>The same handlers, except that none of them raises.\<close>

definition quiet :: "('e, 'h, 'u) handlers \<Rightarrow> ('e, 'h, 'u) handlers" where
  "quiet H = (\<lambda>h e u. case H h e u of (u', cs, thrown) \<Rightarrow> (u', cs, False))"

text \<open>
  \<open>subscribe\<close> stores a list with at least one element and \<open>unsubscribe\<close> deletes the
  entry rather than store an empty list, so no service that the methods produce from a
  new one holds an empty list.
\<close>

definition no_empty_list :: "('e, 'h, 'u) service \<Rightarrow> bool" where
  "no_empty_list s \<longleftrightarrow> (\<forall>k. subscribers s k \<noteq> Some [])"

text \<open>
  The handlers of one event, run one after the other on the rest of the heap: the heap
  they leave and the service calls they made.
\<close>

fun run_handlers :: "('e, 'h, 'u) handlers \<Rightarrow> 'e \<Rightarrow> 'h list \<Rightarrow> 'u \<Rightarrow> 'u \<times> ('e, 'h) call list" where
  "run_handlers H e [] u = (u, [])"
| "run_handlers H e (sub # subs) u =
     (case H sub e u of
        (u1, cs, thrown) \<Rightarrow>
          (case run_handlers H e subs u1 of (u2, cs2) \<Rightarrow> (u2, cs @ cs2)))"

text \<open>A service that holds the six subscriptions of the program.\<close>

definition wired :: "(event, subscriber, world) service \<Rightarrow> bool" where
  "wired s \<longleftrightarrow> subscribers s = subscribers program"

text \<open>
  The private set of the threshold watcher agrees with the machines when it is the set
  that the constructor would compute from them now, and the ids are distinct.
\<close>

definition in_sync :: "int \<Rightarrow> world \<Rightarrow> bool" where
  "in_sync threshold w \<longleftrightarrow>
     distinct (map id_m (machines w)) \<and>
     below w = new_StockWarningSubscriber (machines w) threshold"

text \<open>The stock level that the sale or refill subscriber stores for an event, and the
  line the logger writes for an alert.\<close>

fun stock_after :: "event \<Rightarrow> number \<Rightarrow> number" where
  "stock_after (MachineSaleEvent sold m) level = number_sub level sold"
| "stock_after (MachineRefillEvent refill m) level = number_add level refill"
| "stock_after _ level = level"

fun alert_line :: "event \<Rightarrow> string" where
  "alert_line (LowStockWarningEvent m) = ''LOW STOCK WARNING for machine ID: '' @ m"
| "alert_line (StockLevelOkEvent m) = ''STOCK LEVEL OK for machine ID: '' @ m"
| "alert_line _ = []"

fun is_alert :: "event \<Rightarrow> bool" where
  "is_alert (LowStockWarningEvent m) = True"
| "is_alert (StockLevelOkEvent m) = True"
| "is_alert _ = False"

text \<open>Iterations of the loop that an event can cause: its own, and one for the alert
  that the threshold watcher may publish for it.\<close>

definition weight :: "event \<Rightarrow> nat" where
  "weight e = (if is_alert e then 1 else 2)"

text \<open>
  The alerts the threshold watcher publishes for a machine whose stock level is now
  \<open>level\<close>, when its private set is \<open>b\<close>.
\<close>

definition watcher_alerts :: "int \<Rightarrow> string set \<Rightarrow> string \<Rightarrow> number \<Rightarrow> event list" where
  "watcher_alerts threshold b m level =
     (if number_less level threshold \<and> m \<notin> b then [LowStockWarningEvent m]
      else if \<not> number_less level threshold \<and> m \<in> b then [StockLevelOkEvent m]
      else [])"

section \<open>Numbers\<close>

lemma ulp_small: "m < 2 ^ 53 \<Longrightarrow> ulp m = 1"
  by (simp add: ulp.simps)

lemma round_int_small: "0 \<le> m \<Longrightarrow> m < 2 ^ 53 \<Longrightarrow> round_int m = m"
  by (simp add: round_int_def ulp_small)

lemma to_number_safe: "safe x \<Longrightarrow> to_number x = Fin x"
proof -
  assume "safe x"
  then have m: "\<bar>x\<bar> < 2 ^ 53" by (simp add: safe_def)
  have "(2::int) ^ 53 \<le> 2 ^ 1024" by (rule power_increasing) simp_all
  with m have "\<not> 2 ^ 1024 \<le> \<bar>x\<bar>" by linarith
  with m show ?thesis by (simp add: to_number_def round_int_small Let_def)
qed

lemma safe_is_number: "safe x \<Longrightarrow> is_number x"
  by (simp add: is_number_def to_number_safe)

lemma ulp_pos: "0 < ulp m"
  by (induction m rule: ulp.induct) (subst ulp.simps, simp)

lemma ulp_le: "0 < m \<Longrightarrow> ulp m \<le> m"
proof (induction m rule: ulp.induct)
  case (1 m)
  show ?case
  proof (cases "m < 2 ^ 53")
    case True
    with "1.prems" show ?thesis by (simp add: ulp_small)
  next
    case False
    then have "0 < m div 2" by simp
    with "1.IH" False have "ulp (m div 2) \<le> m div 2" by simp
    then have "2 * ulp (m div 2) \<le> m" by simp
    with False show ?thesis by (subst ulp.simps) simp
  qed
qed

lemma round_int_pos: "0 < m \<Longrightarrow> 0 < round_int m"
proof -
  assume m: "0 < m"
  have "0 < m div ulp m" using ulp_le [OF m] ulp_pos [of m] by (simp add: pos_imp_zdiv_pos_iff)
  then show ?thesis using ulp_pos [of m] by (simp add: round_int_def Let_def)
qed

lemma number_sub_negative: "a < q \<Longrightarrow> number_less (number_sub (Fin a) q) 0"
proof -
  assume "a < q"
  then have "0 < \<bar>a - q\<bar>" and "a - q < 0" by simp_all
  with round_int_pos [of "\<bar>a - q\<bar>"] show ?thesis
    by (simp add: to_number_def Let_def)
qed

section \<open>The dispatcher while the flag is set\<close>

lemma publish_while_processing:
  "processing s \<Longrightarrow>
   publish n T H e s = Some (s\<lparr>queue := queue s @ [e], enqueued := enqueued s @ [e]\<rparr>, Returned)"
  by (simp add: Let_def)

lemma subscribe_fields [simp]:
  "queue (subscribe ty h s) = queue s"
  "processing (subscribe ty h s) = processing s"
  "user (subscribe ty h s) = user s"
  "enqueued (subscribe ty h s) = enqueued s"
  "dispatched (subscribe ty h s) = dispatched s"
  "invoked (subscribe ty h s) = invoked s"
  by (simp_all add: subscribe_def Let_def)

lemma unsubscribe_fields [simp]:
  "queue (unsubscribe ty h s) = queue s"
  "processing (unsubscribe ty h s) = processing s"
  "user (unsubscribe ty h s) = user s"
  "enqueued (unsubscribe ty h s) = enqueued s"
  "dispatched (unsubscribe ty h s) = dispatched s"
  "invoked (unsubscribe ty h s) = invoked s"
  by (simp_all add: unsubscribe_def Let_def split: option.split)

lemma perform_fields [simp]:
  "processing (perform c s) = processing s"
  "user (perform c s) = user s"
  "dispatched (perform c s) = dispatched s"
  "invoked (perform c s) = invoked s"
  by (cases c; simp)+

lemma perform_all_fields [simp]:
  "processing (perform_all cs s) = processing s"
  "user (perform_all cs s) = user s"
  "dispatched (perform_all cs s) = dispatched s"
  "invoked (perform_all cs s) = invoked s"
  by (induction cs arbitrary: s; simp)+

lemma perform_all_queue [simp]:
  "queue (perform_all cs s) = queue s @ published cs"
  "enqueued (perform_all cs s) = enqueued s @ published cs"
proof -
  show "queue (perform_all cs s) = queue s @ published cs"
  proof (induction cs arbitrary: s)
    case (Cons c cs)
    then show ?case by (cases c) simp_all
  qed simp
  show "enqueued (perform_all cs s) = enqueued s @ published cs"
  proof (induction cs arbitrary: s)
    case (Cons c cs)
    then show ?case by (cases c) simp_all
  qed simp
qed

lemma calls_while_processing:
  "processing s \<Longrightarrow> calls n T H cs s = Some (perform_all cs s)"
proof (induction cs arbitrary: s)
  case Nil
  show ?case by simp
next
  case (Cons c cs)
  show ?case
  proof (cases c)
    case (Publish e)
    with Cons show ?thesis by (simp add: publish_while_processing del: publish.simps)
  next
    case (Subscribe ty h)
    with Cons show ?thesis by simp
  next
    case (Unsubscribe ty h)
    with Cons show ?thesis by simp
  qed
qed

lemma deliver_fields [simp]:
  "processing (deliver H e subs s) = processing s"
  "dispatched (deliver H e subs s) = dispatched s"
  "invoked (deliver H e subs s) = invoked s @ map (\<lambda>h. (h, e)) subs"
  by (induction subs arbitrary: s; simp split: prod.split)+

lemma deliver_queue:
  "\<exists>xs. queue (deliver H e subs s) = queue s @ xs \<and> enqueued (deliver H e subs s) = enqueued s @ xs"
proof (induction subs arbitrary: s)
  case Nil
  show ?case by simp
next
  case (Cons sub subs)
  obtain u cs thrown where h: "H sub e (user s) = (u, cs, thrown)"
    by (cases "H sub e (user s)") auto
  let ?s1 = "perform_all cs (s\<lparr>user := u, invoked := invoked s @ [(sub, e)]\<rparr>)"
  from Cons [of ?s1] obtain xs where
    "queue (deliver H e subs ?s1) = queue ?s1 @ xs" "enqueued (deliver H e subs ?s1) = enqueued ?s1 @ xs"
    by blast
  with h show ?case by simp
qed

lemma dispatch_while_processing:
  "processing s \<Longrightarrow> dispatch n T H e subs s = Some (deliver H e subs s)"
  by (induction subs arbitrary: s) (simp_all add: calls_while_processing split: prod.split)

lemma drain_iteration:
  assumes "processing s" and "queue s = next # rest" and "T next = Some ty"
  shows "drain (Suc n) T H s = drain n T H (iteration H next ty s)"
  using assms
  by (simp add: iteration_def subscribers_of_def dispatch_while_processing split: option.split)

lemma drain_raise:
  assumes "queue s = next # rest" and "T next = None"
  shows "drain (Suc n) T H s = Some (s\<lparr>queue := rest, dispatched := dispatched s @ [(next, [])]\<rparr>, Raised)"
  using assms by simp

lemma drain_empty: "queue s = [] \<Longrightarrow> drain (Suc n) T H s = Some (s, Returned)"
  by simp

lemma iteration_fields [simp]:
  "processing (iteration H e ty s) = processing s"
  "dispatched (iteration H e ty s) = dispatched s @ [(e, subscribers_of s ty)]"
  "invoked (iteration H e ty s) = invoked s @ map (\<lambda>h. (h, e)) (subscribers_of s ty)"
  by (simp_all add: iteration_def)

lemma iteration_queue:
  "\<exists>xs. queue (iteration H e ty s) = tl (queue s) @ xs \<and> enqueued (iteration H e ty s) = enqueued s @ xs"
  using deliver_queue [of H e "subscribers_of s ty" "s\<lparr>queue := tl (queue s), dispatched := dispatched s @ [(e, subscribers_of s ty)]\<rparr>"]
  by (simp add: iteration_def)


lemma drain_invariant:
  assumes "drain n T H s = Some (s', r)" and "processing s" and "P s"
    and step: "\<And>s next rest ty. processing s \<Longrightarrow> P s \<Longrightarrow> queue s = next # rest \<Longrightarrow>
                 T next = Some ty \<Longrightarrow> P (iteration H next ty s)"
    and raise: "\<And>s next rest. processing s \<Longrightarrow> P s \<Longrightarrow> queue s = next # rest \<Longrightarrow>
                 T next = None \<Longrightarrow> P (s\<lparr>queue := rest, dispatched := dispatched s @ [(next, [])]\<rparr>)"
  shows "P s' \<and> processing s' \<and> (r = Returned \<longrightarrow> queue s' = [])"
  using assms(1-3)
proof (induction n arbitrary: s)
  case 0
  then show ?case by simp
next
  case (Suc n)
  show ?case
  proof (cases "queue s")
    case Nil
    with Suc.prems show ?thesis by simp
  next
    case (Cons e rest)
    show ?thesis
    proof (cases "T e")
      case None
      with Cons Suc.prems have "s' = s\<lparr>queue := rest, dispatched := dispatched s @ [(e, [])]\<rparr>"
        and "r = Raised" by simp_all
      with raise [of s e rest] Suc.prems(2,3) Cons None show ?thesis by simp
    next
      case (Some ty)
      from Suc.prems(1) have "drain n T H (iteration H e ty s) = Some (s', r)"
        using drain_iteration [of s e rest T ty n H] Suc.prems(2) Cons Some by simp
      moreover have "processing (iteration H e ty s)"
        using Suc.prems(2) by simp
      moreover have "P (iteration H e ty s)"
        using step [of s e rest ty] Suc.prems(2,3) Cons Some by simp
      ultimately show ?thesis by (rule Suc.IH)
    qed
  qed
qed

lemma publish_idle:
  assumes "\<not> processing s"
  shows "publish n T H e s =
           (case drain n T H (s\<lparr>queue := queue s @ [e], enqueued := enqueued s @ [e], processing := True\<rparr>) of
              None \<Rightarrow> None
            | Some (s2, r) \<Rightarrow> Some (s2\<lparr>processing := False\<rparr>, r))"
  using assms by (simp add: Let_def)

lemma grouped_append [simp]: "grouped (xs @ ys) = grouped xs @ grouped ys"
  by (simp add: grouped_def)

lemma grouped_single [simp]: "grouped [(e, list)] = map (\<lambda>h. (h, e)) list"
  by (simp add: grouped_def)

lemma fifo_iteration:
  assumes "fifo s" and "queue s = next # rest"
  shows "fifo (iteration H next ty s)"
proof -
  obtain xs where "queue (iteration H next ty s) = tl (queue s) @ xs"
    "enqueued (iteration H next ty s) = enqueued s @ xs"
    using iteration_queue [of H "next" ty s] by blast
  with assms show ?thesis by (simp add: fifo_def)
qed

lemma fifo_drain:
  assumes "drain n T H s = Some (s', r)" and "processing s" and "fifo s"
  shows "fifo s' \<and> processing s' \<and> (r = Returned \<longrightarrow> queue s' = [])"
  using assms
proof (rule drain_invariant)
  show "fifo (iteration H e ty s)" if "fifo s" "queue s = e # rest" for s :: "('a, 'b, 'c) service" and e rest ty
    using that by (rule fifo_iteration)
  show "fifo (s\<lparr>queue := rest, dispatched := dispatched s @ [(e, [])]\<rparr>)"
    if "fifo s" "queue s = e # rest" for s :: "('a, 'b, 'c) service" and e rest
    using that by (simp add: fifo_def)
qed

lemma fifo_publish:
  assumes "publish n T H e s = Some (s', r)" and "\<not> processing s" and "fifo s"
  shows "fifo s' \<and> \<not> processing s' \<and> (r = Returned \<longrightarrow> queue s' = [])"
proof -
  let ?s1 = "s\<lparr>queue := queue s @ [e], enqueued := enqueued s @ [e], processing := True\<rparr>"
  from assms(1,2) obtain s2 where d: "drain n T H ?s1 = Some (s2, r)" and s': "s' = s2\<lparr>processing := False\<rparr>"
    by (auto simp: publish_idle split: option.splits)
  have "fifo ?s1" using assms(3) by (simp add: fifo_def)
  with d have "fifo s2 \<and> processing s2 \<and> (r = Returned \<longrightarrow> queue s2 = [])"
    by (intro fifo_drain) simp_all
  with s' show ?thesis by (simp add: fifo_def)
qed

lemma fifo_publish_all:
  assumes "publish_all n T H es s = Some (s', r)" and "\<not> processing s" and "fifo s"
  shows "fifo s' \<and> \<not> processing s' \<and> (r = Returned \<and> es \<noteq> [] \<longrightarrow> queue s' = [])"
  using assms
proof (induction es arbitrary: s)
  case Nil
  then show ?case by simp
next
  case (Cons e es)
  from Cons.prems(1) obtain s1 r1 where p: "publish n T H e s = Some (s1, r1)"
    by (cases "publish n T H e s") (auto simp del: publish.simps)
  from fifo_publish [OF p Cons.prems(2,3)]
  have s1: "fifo s1" "\<not> processing s1" "r1 = Returned \<longrightarrow> queue s1 = []" by simp_all
  show ?case
  proof (cases r1)
    case Raised
    with p Cons.prems(1) s1 show ?thesis by (simp del: publish.simps)
  next
    case Returned
    with p Cons.prems(1) have a: "publish_all n T H es s1 = Some (s', r)" by (simp del: publish.simps)
    from Cons.IH [OF a s1(2) s1(1)] have "fifo s'" "\<not> processing s'" "r = Returned \<and> es \<noteq> [] \<longrightarrow> queue s' = []"
      by simp_all
    moreover have "queue s' = []" if "es = []" using that a s1(3) Returned by simp
    ultimately show ?thesis by blast
  qed
qed

section \<open>The handlers of one event\<close>

lemma published_append [simp]: "published (cs @ ds) = published cs @ published ds"
  by (induction cs rule: published.induct) simp_all

lemma deliver_run_handlers:
  "user (deliver H e subs s) = fst (run_handlers H e subs (user s))
 \<and> queue (deliver H e subs s) = queue s @ published (snd (run_handlers H e subs (user s)))
 \<and> enqueued (deliver H e subs s) = enqueued s @ published (snd (run_handlers H e subs (user s)))"
proof (induction subs arbitrary: s)
  case Nil
  show ?case by simp
next
  case (Cons sub subs)
  obtain u cs thrown where h: "H sub e (user s) = (u, cs, thrown)"
    by (cases "H sub e (user s)") auto
  obtain u2 cs2 where r: "run_handlers H e subs u = (u2, cs2)"
    by (cases "run_handlers H e subs u") auto
  let ?s1 = "perform_all cs (s\<lparr>user := u, invoked := invoked s @ [(sub, e)]\<rparr>)"
  have "user ?s1 = u" by simp
  with Cons [of ?s1] r h show ?case by simp
qed

lemma only_publish_perform_all:
  assumes "\<forall>c \<in> set cs. \<exists>x. c = Publish x"
  shows "subscribers (perform_all cs s) = subscribers s"
  using assms by (induction cs arbitrary: s) auto

lemma only_publish_deliver:
  assumes "\<forall>h e u. \<forall>c \<in> set (fst (snd (H h e u))). \<exists>x. c = Publish x"
  shows "subscribers (deliver H e subs s) = subscribers s"
proof (induction subs arbitrary: s)
  case Nil
  show ?case by simp
next
  case (Cons sub subs)
  obtain u cs thrown where h: "H sub e (user s) = (u, cs, thrown)"
    by (cases "H sub e (user s)") auto
  with assms have "\<forall>c \<in> set cs. \<exists>x. c = Publish x"
    by (metis fst_conv snd_conv)
  then have "subscribers (perform_all cs (s\<lparr>user := u, invoked := invoked s @ [(sub, e)]\<rparr>)) = subscribers s"
    by (simp add: only_publish_perform_all)
  with h Cons show ?case by simp
qed

section \<open>The bound on the iterations\<close>

text \<open>
  The bound only cuts runs short: a result obtained within a bound is the result within
  every larger bound. When no handler publishes, the loop ends after one iteration per
  pending event.
\<close>

lemma drain_bound:
  assumes "drain n T H s = Some x" and "processing s"
  shows "drain (n + k) T H s = Some x"
  using assms
proof (induction n arbitrary: s)
  case 0
  then show ?case by simp
next
  case (Suc n)
  show ?case
  proof (cases "queue s")
    case Nil
    with Suc.prems show ?thesis by simp
  next
    case (Cons e rest)
    show ?thesis
    proof (cases "T e")
      case None
      with Cons Suc.prems show ?thesis by simp
    next
      case (Some ty)
      have "drain (Suc n) T H s = drain n T H (iteration H e ty s)"
        using Suc.prems(2) Cons Some by (rule drain_iteration)
      with Suc.prems(1) have "drain n T H (iteration H e ty s) = Some x" by simp
      then have "drain (n + k) T H (iteration H e ty s) = Some x"
        using Suc.prems(2) by (intro Suc.IH) simp_all
      moreover have "drain (Suc (n + k)) T H s = drain (n + k) T H (iteration H e ty s)"
        using Suc.prems(2) Cons Some by (rule drain_iteration)
      ultimately show ?thesis by simp
    qed
  qed
qed

lemma publish_bound:
  assumes "publish n T H e s = Some x"
  shows "publish (n + k) T H e s = Some x"
proof (cases "processing s")
  case True
  with assms show ?thesis by (simp add: publish_while_processing del: publish.simps)
next
  case False
  let ?s1 = "s\<lparr>queue := queue s @ [e], enqueued := enqueued s @ [e], processing := True\<rparr>"
  from assms False obtain y where d: "drain n T H ?s1 = Some y"
    by (auto simp: publish_idle split: option.splits)
  have "drain (n + k) T H ?s1 = Some y"
    using d by (rule drain_bound) simp
  with assms d False show ?thesis by (simp add: publish_idle del: publish.simps)
qed

lemma run_handlers_silent:
  assumes "\<forall>h e u. published (fst (snd (H h e u))) = []"
  shows "published (snd (run_handlers H e subs u)) = []"
proof (induction subs arbitrary: u)
  case Nil
  show ?case by simp
next
  case (Cons sub subs)
  obtain u1 cs thrown where h: "H sub e u = (u1, cs, thrown)"
    by (cases "H sub e u") auto
  with assms have "published cs = []" by (metis fst_conv snd_conv)
  moreover obtain u2 cs2 where r: "run_handlers H e subs u1 = (u2, cs2)"
    by (cases "run_handlers H e subs u1") auto
  moreover from Cons [of u1] r have "published cs2 = []" by simp
  ultimately show ?case using h by simp
qed

lemma drain_silent_returns:
  assumes "\<forall>h e u. published (fst (snd (H h e u))) = []" and "processing s" and "length (queue s) < n"
  shows "\<exists>s' r. drain n T H s = Some (s', r)"
  using assms(2,3)
proof (induction n arbitrary: s)
  case 0
  then show ?case by simp
next
  case (Suc n)
  show ?case
  proof (cases "queue s")
    case Nil
    then show ?thesis by simp
  next
    case (Cons e rest)
    show ?thesis
    proof (cases "T e")
      case None
      with Cons show ?thesis by simp
    next
      case (Some ty)
      let ?s2 = "iteration H e ty s"
      have d: "drain (Suc n) T H s = drain n T H ?s2"
        using Suc.prems(1) Cons Some by (rule drain_iteration)
      have "queue ?s2 = rest"
        using deliver_run_handlers [of H e "subscribers_of s ty"
            "s\<lparr>queue := tl (queue s), dispatched := dispatched s @ [(e, subscribers_of s ty)]\<rparr>"]
          run_handlers_silent [OF assms(1), of e "subscribers_of s ty" "user s"] Cons
        by (simp add: iteration_def)
      with Suc.prems(2) Cons have "length (queue ?s2) < n" by simp
      moreover have "processing ?s2" using Suc.prems(1) by simp
      ultimately show ?thesis unfolding d by (intro Suc.IH)
    qed
  qed
qed

lemma publish_silent_returns:
  assumes "\<forall>h e u. published (fst (snd (H h e u))) = []" and "length (queue s) + 1 < n"
  shows "\<exists>s' r. publish n T H e s = Some (s', r)"
proof (cases "processing s")
  case True
  then show ?thesis by (simp add: publish_while_processing del: publish.simps)
next
  case False
  let ?s1 = "s\<lparr>queue := queue s @ [e], enqueued := enqueued s @ [e], processing := True\<rparr>"
  have "\<exists>s' r. drain n T H ?s1 = Some (s', r)"
    using assms by (intro drain_silent_returns) simp_all
  with False show ?thesis by (auto simp: publish_idle simp del: publish.simps)
qed

section \<open>The logs only grow\<close>

lemma enqueued_grows_drain:
  assumes "drain n T H s = Some (s', r)" and "processing s"
  shows "prefix (enqueued s) (enqueued s') \<and> prefix (dispatched s) (dispatched s') \<and> prefix (invoked s) (invoked s')"
proof -
  let ?P = "\<lambda>x. prefix (enqueued s) (enqueued x) \<and> prefix (dispatched s) (dispatched x) \<and> prefix (invoked s) (invoked x)"
  have "?P s' \<and> processing s' \<and> (r = Returned \<longrightarrow> queue s' = [])"
    using assms
  proof (rule drain_invariant [where P = ?P])
    show "?P s" by simp
    show "?P (iteration H e ty x)" if "?P x" for x :: "('a, 'b, 'c) service" and e ty
    proof -
      obtain xs where "enqueued (iteration H e ty x) = enqueued x @ xs"
        using iteration_queue [of H e ty x] by blast
      with that show ?thesis by (auto intro: prefix_order.trans)
    qed
    show "?P (x\<lparr>queue := rest, dispatched := dispatched x @ [(e, [])]\<rparr>)" if "?P x"
      for x :: "('a, 'b, 'c) service" and e rest
      using that by (auto intro: prefix_order.trans)
  qed
  then show ?thesis by simp
qed

lemma publish_enqueues:
  assumes "publish n T H e s = Some (s', r)"
  shows "prefix (enqueued s @ [e]) (enqueued s') \<and> prefix (dispatched s) (dispatched s') \<and> prefix (invoked s) (invoked s')"
proof (cases "processing s")
  case True
  with assms show ?thesis by (auto simp add: publish_while_processing simp del: publish.simps)
next
  case False
  let ?s1 = "s\<lparr>queue := queue s @ [e], enqueued := enqueued s @ [e], processing := True\<rparr>"
  from assms False obtain s2 where d: "drain n T H ?s1 = Some (s2, r)" and s': "s' = s2\<lparr>processing := False\<rparr>"
    by (auto simp: publish_idle split: option.splits)
  from enqueued_grows_drain [OF d] s' show ?thesis by simp
qed

lemma publish_all_enqueues:
  assumes "publish_all n T H es s = Some (s', r)"
  shows "prefix (enqueued s) (enqueued s') \<and> prefix (dispatched s) (dispatched s') \<and> prefix (invoked s) (invoked s')
     \<and> (r = Returned \<longrightarrow> subseq es (drop (length (enqueued s)) (enqueued s')))"
  using assms
proof (induction es arbitrary: s)
  case Nil
  then show ?case by simp
next
  case (Cons e es)
  from Cons.prems(1) obtain s1 r1 where p: "publish n T H e s = Some (s1, r1)"
    by (cases "publish n T H e s") (auto simp del: publish.simps)
  from publish_enqueues [OF p]
  have g: "prefix (enqueued s @ [e]) (enqueued s1)" "prefix (dispatched s) (dispatched s1)"
    "prefix (invoked s) (invoked s1)" by simp_all
  show ?case
  proof (cases r1)
    case Raised
    with p Cons.prems(1) g show ?thesis by (auto simp del: publish.simps dest: append_prefixD)
  next
    case Returned
    with p Cons.prems(1) have a: "publish_all n T H es s1 = Some (s', r)" by (simp del: publish.simps)
    from Cons.IH [OF a]
    have h: "prefix (enqueued s1) (enqueued s')" "prefix (dispatched s1) (dispatched s')"
      "prefix (invoked s1) (invoked s')" "r = Returned \<longrightarrow> subseq es (drop (length (enqueued s1)) (enqueued s'))"
      by simp_all
    from g(1) obtain c where c: "enqueued s1 = enqueued s @ e # c" by (auto simp: prefix_def)
    from h(1) obtain d where d: "enqueued s' = enqueued s1 @ d" by (auto simp: prefix_def)
    have "subseq (e # es) (drop (length (enqueued s)) (enqueued s'))" if "r = Returned"
    proof -
      from that h(4) d have "subseq es d" by simp
      then have "subseq es (c @ d)" by (rule subseq_drop_many)
      then show ?thesis using c d by simp
    qed
    moreover have "prefix (enqueued s) (enqueued s')" using c d by simp
    moreover have "prefix (dispatched s) (dispatched s')" "prefix (invoked s) (invoked s')"
      using g h by (auto intro: prefix_order.trans)
    ultimately show ?thesis by simp
  qed
qed

section \<open>Order of delivery\<close>

text \<open>
  Claim C1. Let any list of events be published, one top-level call after the other, on an
  idle service whose logs agree (for instance a new one), with any handlers, which may
  publish, subscribe, unsubscribe and raise. Then the logs agree afterwards: the events
  were taken from the queue in exactly the order in which line 128 appended them,
  whether a top-level call or a handler appended them, and the handlers were invoked
  event by event in that order, all subscribers of one event before any subscriber of the
  next (\<open>grouped\<close>); no call of \<open>handle\<close> for a cascaded event lies inside the calls for
  the event that caused it. When the calls return normally, every event enqueued has been
  dispatched, and the published events are among them in their order.
\<close>

theorem fifo_cascade_order:
  assumes "publish_all n T H es s = Some (s', r)" and "\<not> processing s" and "fifo s"
  shows "enqueued s' = map fst (dispatched s') @ queue s'
       \<and> invoked s' = grouped (dispatched s')
       \<and> prefix (enqueued s) (enqueued s') \<and> prefix (dispatched s) (dispatched s')
       \<and> (r = Returned \<and> es \<noteq> [] \<longrightarrow>
            map fst (dispatched s') = enqueued s' \<and> subseq es (drop (length (enqueued s)) (enqueued s')))"
proof -
  from fifo_publish_all [OF assms]
  have "fifo s'" and q: "r = Returned \<and> es \<noteq> [] \<longrightarrow> queue s' = []" by simp_all
  then have f: "enqueued s' = map fst (dispatched s') @ queue s'" "invoked s' = grouped (dispatched s')"
    by (simp_all add: fifo_def)
  have "map fst (dispatched s') = enqueued s'" if "r = Returned \<and> es \<noteq> []"
    using that q f(1) by simp
  with f publish_all_enqueues [OF assms(1)] show ?thesis by blast
qed

text \<open>
  One subscriber that answers the events 0, 1 and 2 by publishing two events each: the
  seven events are dispatched generation by generation, 0, 1, 2, 3, 4, 5, 6, where a
  depth-first delivery would give 0, 1, 3, 4, 2, 5, 6.
\<close>

theorem fifo_cascade_order_witness:
  "\<not> processing (subscribe ''k'' () (new_service ()) :: (nat, unit, unit) service) \<and>
   fifo (subscribe ''k'' () (new_service ()) :: (nat, unit, unit) service) \<and>
   (case publish_all 8 (\<lambda>e. Some ''k'')
           (\<lambda>h e u. (u, if e < 3 then [Publish (2 * e + 1), Publish (2 * e + 2)] else [], False))
           [0] (subscribe ''k'' () (new_service ()) :: (nat, unit, unit) service) of
      None \<Rightarrow> False
    | Some (s', r) \<Rightarrow>
        r = Returned \<and> enqueued s' = [0, 1, 2, 3, 4, 5, 6] \<and> map fst (dispatched s') = enqueued s')"
proof -
  let ?T = "\<lambda>e::nat. Some ''k''"
  let ?H = "\<lambda>(h::unit) (e::nat) (u::unit).
               (u, if e < 3 then [Publish (2 * e + 1), Publish (2 * e + 2)] else [], False)"
  let ?s = "subscribe ''k'' () (new_service ()) :: (nat, unit, unit) service"
  have a: "\<not> processing ?s" and b: "fifo ?s"
    by (simp_all add: fifo_def grouped_def new_service_def)
  have c: "(case publish_all 8 ?T ?H [0] ?s of None \<Rightarrow> False
            | Some (s', r) \<Rightarrow> r = Returned \<and> enqueued s' = [0, 1, 2, 3, 4, 5, 6])"
    by code_simp
  obtain s' r where d: "publish_all 8 ?T ?H [0] ?s = Some (s', r)"
    using c by (cases "publish_all 8 ?T ?H [0] ?s") (auto simp only: option.case)
  from c have e: "r = Returned" "enqueued s' = [0, 1, 2, 3, 4, 5, 6]"
    unfolding d by simp_all
  have ne: "[0::nat] \<noteq> []" by simp
  have "map fst (dispatched s') = enqueued s'"
    using fifo_cascade_order [OF d a b] e(1) ne by blast
  with a b e show ?thesis unfolding d by (simp only: option.case prod.case simp_thms)
qed

lemma drain_processing:
  assumes "drain n T H s = Some (s', r)" and "processing s"
  shows "processing s' \<and> (r = Returned \<longrightarrow> queue s' = [])"
proof -
  have "True \<and> processing s' \<and> (r = Returned \<longrightarrow> queue s' = [])"
    using assms by (rule drain_invariant [where P = "\<lambda>x. True"]) simp_all
  then show ?thesis by simp
qed

lemma dispatch_keeps_flag:
  assumes "processing s"
  shows "\<exists>s1. dispatch n T H e subs s = Some s1 \<and> processing s1
            \<and> invoked s1 = invoked s @ map (\<lambda>h. (h, e)) subs \<and> dispatched s1 = dispatched s"
  using assms by (simp add: dispatch_while_processing)

section \<open>The flag\<close>

lemma drain_returns:
  assumes "drain n T H s = Some (s', r)" and "processing s" and "\<forall>x. T x \<noteq> None"
  shows "r = Returned"
  using assms(1,2)
proof (induction n arbitrary: s)
  case 0
  then show ?case by simp
next
  case (Suc n)
  show ?case
  proof (cases "queue s")
    case Nil
    with Suc.prems show ?thesis by simp
  next
    case (Cons e rest)
    from assms(3) have "T e \<noteq> None" by blast
    then obtain ty where ty: "T e = Some ty" by blast
    from Suc.prems(1) have "drain n T H (iteration H e ty s) = Some (s', r)"
      using drain_iteration [of s e rest T ty n H] Suc.prems(2) Cons ty by simp
    moreover have "processing (iteration H e ty s)" using Suc.prems(2) by simp
    ultimately show ?thesis by (rule Suc.IH)
  qed
qed

text \<open>
  Claim C2 says that a \<open>publish\<close> on an idle dispatcher processes the queue to empty
  before it returns, and that an event published while the flag is set is delivered
  exactly once by the originating drain. Line 134 calls \<open>next.type()\<close> outside the inner
  \<open>try\<close>. One subscriber answers event 0 by publishing the events 1 and 2, and \<open>type()\<close>
  of event 1 raises: the originating \<open>publish\<close> ends by raising, with the flag cleared;
  the events 1 and 2 were enqueued while the flag was set; the only handler call is the
  one for event 0; event 1 was taken from the queue and given to no handler, and event 2
  is still in the queue.
\<close>

theorem draining_flag_counterexample:
  "(case publish 5 (\<lambda>e. if e = 1 then None else Some ''k'')
           (\<lambda>h e u. (u, if e = 0 then [Publish 1, Publish 2] else [], False)) 0
           (subscribe ''k'' 0 (new_service ()) :: (nat, nat, unit) service) of
      None \<Rightarrow> False
    | Some (s', r) \<Rightarrow>
        r = Raised \<and> \<not> processing s' \<and> enqueued s' = [0, 1, 2]
      \<and> dispatched s' = [(0, [0]), (1, [])] \<and> invoked s' = [(0, 0)] \<and> queue s' = [2])"
  by code_simp

text \<open>
  Claim C2, amended. The flag \<open>processing\<close> is set exactly while the loop runs.
  \<^item> A \<open>publish\<close> that finds the flag set appends its event and returns at once, for
    every bound, even 0: it takes nothing from the queue and invokes no handler. The
    \<open>for\<close> loop over the subscribers always returns and leaves the flag set, whatever the
    handlers call, so every \<open>publish\<close> a handler makes finds it set; and the loop of a
    service whose flag is set ends with the flag set.
  \<^item> A \<open>publish\<close> on an idle service ends with the flag cleared on both exits, the
    normal one and the one where \<open>next.type()\<close> raised past the inner \<open>try\<close>. When it
    returns normally the queue is empty, and (on a service whose logs agree) every event
    enqueued, by the caller or by a handler, has been dispatched exactly once: the list
    of dispatched events is the list of enqueued events. On either exit the events
    enqueued are those dispatched, once each and in order, followed by those still in
    the queue: when \<open>publish\<close> ends by raising, which happens only when \<open>type()\<close> of
    some event raises, the events behind the one that raised stay queued, undelivered
    by the originating drain. The result does not depend on the bound.
  \<^item> A \<open>publish\<close> on an idle service is: append the event, set the flag, run the loop,
    clear the flag.
\<close>

theorem draining_flag:
  "(processing s \<longrightarrow>
      publish n T H e s = Some (s\<lparr>queue := queue s @ [e], enqueued := enqueued s @ [e]\<rparr>, Returned)
    \<and> (\<exists>s1. dispatch n T H e subs s = Some s1 \<and> processing s1)
    \<and> (drain n T H s = Some (s2, r2) \<longrightarrow> processing s2))
 \<and> (\<not> processing s0 \<and> publish n T H e s0 = Some (s', r) \<longrightarrow>
      \<not> processing s' \<and> (r = Returned \<longrightarrow> queue s' = [])
    \<and> (fifo s0 \<and> r = Returned \<longrightarrow> map fst (dispatched s') = enqueued s')
    \<and> (fifo s0 \<longrightarrow> enqueued s' = map fst (dispatched s') @ queue s')
    \<and> (r = Raised \<longrightarrow> (\<exists>x. T x = None))
    \<and> publish (n + k) T H e s0 = Some (s', r))
 \<and> (\<not> processing s0 \<longrightarrow>
      publish n T H e s0 =
        (case drain n T H (s0\<lparr>queue := queue s0 @ [e], enqueued := enqueued s0 @ [e],
                              processing := True\<rparr>) of
           None \<Rightarrow> None
         | Some (s3, r3) \<Rightarrow> Some (s3\<lparr>processing := False\<rparr>, r3)))"
proof (intro conjI impI)
  assume p: "processing s"
  then show "publish n T H e s = Some (s\<lparr>queue := queue s @ [e], enqueued := enqueued s @ [e]\<rparr>, Returned)"
    by (rule publish_while_processing)
  from p show "\<exists>s1. dispatch n T H e subs s = Some s1 \<and> processing s1"
    using dispatch_keeps_flag [of s n T H e subs] by blast
  show "processing s2" if "drain n T H s = Some (s2, r2)"
    using drain_processing [OF that p] by simp
next
  assume a: "\<not> processing s0 \<and> publish n T H e s0 = Some (s', r)"
  let ?s1 = "s0\<lparr>queue := queue s0 @ [e], enqueued := enqueued s0 @ [e], processing := True\<rparr>"
  from a obtain s2 where d: "drain n T H ?s1 = Some (s2, r)" and s': "s' = s2\<lparr>processing := False\<rparr>"
    by (auto simp: publish_idle split: option.splits)
  from s' show "\<not> processing s'" by simp
  show "queue s' = []" if "r = Returned"
    using drain_processing [OF d] s' that by simp
  show "map fst (dispatched s') = enqueued s'" if "fifo s0 \<and> r = Returned"
  proof -
    from a that have "publish n T H e s0 = Some (s', r)" "\<not> processing s0" "fifo s0"
      by blast+
    from fifo_publish [OF this] that have "fifo s'" "queue s' = []" by blast+
    then show ?thesis by (simp add: fifo_def)
  qed
  show "enqueued s' = map fst (dispatched s') @ queue s'" if "fifo s0"
  proof -
    from a that have "publish n T H e s0 = Some (s', r)" "\<not> processing s0" "fifo s0"
      by blast+
    from fifo_publish [OF this] have "fifo s'" by blast
    then show ?thesis by (simp add: fifo_def)
  qed
  show "\<exists>x. T x = None" if "r = Raised"
  proof (rule ccontr)
    assume "\<not> (\<exists>x. T x = None)"
    then have "\<forall>x. T x \<noteq> None" by simp
    with drain_returns [OF d] have "r = Returned" by simp
    with that show False by simp
  qed
  from a have "publish n T H e s0 = Some (s', r)" by blast
  then show "publish (n + k) T H e s0 = Some (s', r)"
    by (rule publish_bound)
next
  assume "\<not> processing s0"
  then show "publish n T H e s0 =
        (case drain n T H (s0\<lparr>queue := queue s0 @ [e], enqueued := enqueued s0 @ [e],
                              processing := True\<rparr>) of
           None \<Rightarrow> None
         | Some (s3, r3) \<Rightarrow> Some (s3\<lparr>processing := False\<rparr>, r3))"
    by (rule publish_idle)
qed

text \<open>
  One subscriber that answers event 0 by publishing the events 1 and 2. When \<open>type()\<close>
  of event 1 raises, \<open>publish\<close> ends by raising, with event 2 left in the queue and the
  flag cleared; when it does not, \<open>publish\<close> returns with the three events dispatched.
\<close>

theorem draining_flag_witness:
  "processing ((new_service ()) \<lparr>processing := True\<rparr> :: (nat, nat, unit) service)
 \<and> publish 0 (\<lambda>e. Some ''k'') (\<lambda>h e u. (u, [Publish e], False)) 5
      ((new_service ()) \<lparr>processing := True\<rparr> :: (nat, nat, unit) service)
    = Some ((new_service ()) \<lparr>processing := True, queue := [5], enqueued := [5]\<rparr>, Returned)
 \<and> \<not> processing (subscribe ''k'' 0 (new_service ()) :: (nat, nat, unit) service)
 \<and> fifo (subscribe ''k'' 0 (new_service ()) :: (nat, nat, unit) service)
 \<and> (case publish 5 (\<lambda>e. if e = 1 then None else Some ''k'')
           (\<lambda>h e u. (u, if e = 0 then [Publish 1, Publish 2] else [], False)) 0
           (subscribe ''k'' 0 (new_service ()) :: (nat, nat, unit) service) of
      None \<Rightarrow> False
    | Some (s', r) \<Rightarrow>
        r = Raised \<and> queue s' = [2] \<and> \<not> processing s'
        \<and> enqueued s' = map fst (dispatched s') @ queue s')
 \<and> (case publish 5 (\<lambda>e. Some ''k'')
           (\<lambda>h e u. (u, if e = 0 then [Publish 1, Publish 2] else [], False)) 0
           (subscribe ''k'' 0 (new_service ()) :: (nat, nat, unit) service) of
      None \<Rightarrow> False
    | Some (s', r) \<Rightarrow>
        r = Returned \<and> enqueued s' = [0, 1, 2] \<and> queue s' = [] \<and> \<not> processing s'
        \<and> map fst (dispatched s') = enqueued s')"
proof -
  let ?s = "(new_service ()) \<lparr>processing := True\<rparr> :: (nat, nat, unit) service"
  let ?idle = "subscribe ''k'' 0 (new_service ()) :: (nat, nat, unit) service"
  let ?T = "\<lambda>e::nat. if e = 1 then None else Some ''k''"
  let ?K = "\<lambda>e::nat. Some ''k''"
  let ?H = "\<lambda>(h::nat) (e::nat) (u::unit). (u, if e = 0 then [Publish 1, Publish 2] else [], False)"
  have a: "processing ?s" by (simp add: new_service_def)
  have b: "\<not> processing ?idle" and ff: "fifo ?idle"
    by (simp_all add: new_service_def fifo_def grouped_def)
  have c: "(case publish 5 ?T ?H 0 ?idle of None \<Rightarrow> False
            | Some (s', r) \<Rightarrow> r = Raised \<and> queue s' = [2])"
    by code_simp
  obtain s' r where d: "publish 5 ?T ?H 0 ?idle = Some (s', r)"
    using c by (cases "publish 5 ?T ?H 0 ?idle") (auto simp only: option.case)
  from c have e: "r = Raised" "queue s' = [2]"
    unfolding d by simp_all
  have f: "\<not> processing s' \<and> enqueued s' = map fst (dispatched s') @ queue s'"
    using draining_flag [of ?s 5 ?T ?H 0 "[]" _ _ ?idle s' r] b ff d by blast
  have g: "publish 0 (\<lambda>e. Some ''k'') (\<lambda>h e u. (u, [Publish e], False)) 5 ?s
    = Some (?s \<lparr>queue := queue ?s @ [5], enqueued := enqueued ?s @ [5]\<rparr>, Returned)"
    using draining_flag [of ?s 0 "\<lambda>e. Some ''k''" "\<lambda>h e u. (u, [Publish e], False)" 5 "[]" _ _ ?idle s' r] a by blast
  have h: "?s \<lparr>queue := queue ?s @ [5], enqueued := enqueued ?s @ [5]\<rparr>
     = (new_service ()) \<lparr>processing := True, queue := [5], enqueued := [5]\<rparr>"
    by (simp add: new_service_def)
  have i: "(case publish 5 ?K ?H 0 ?idle of None \<Rightarrow> False
            | Some (s', r) \<Rightarrow> r = Returned \<and> enqueued s' = [0, 1, 2])"
    by code_simp
  obtain s4 r4 where j: "publish 5 ?K ?H 0 ?idle = Some (s4, r4)"
    using i by (cases "publish 5 ?K ?H 0 ?idle") (auto simp only: option.case)
  from i have k: "r4 = Returned" "enqueued s4 = [0, 1, 2]"
    unfolding j by simp_all
  have l: "\<not> processing s4 \<and> queue s4 = [] \<and> map fst (dispatched s4) = enqueued s4"
    using draining_flag [of ?s 5 ?K ?H 0 "[]" _ _ ?idle s4 r4] b ff j k(1) by blast
  from a b ff e f k l g [unfolded h] show ?thesis unfolding d j
    by (simp only: option.case prod.case simp_thms)
qed

section \<open>Handlers that raise\<close>

lemma deliver_quiet: "deliver (quiet H) e subs s = deliver H e subs s"
  by (induction subs arbitrary: s) (simp_all add: quiet_def split: prod.split)

lemma iteration_quiet: "iteration (quiet H) e ty s = iteration H e ty s"
  by (simp add: iteration_def deliver_quiet)

lemma drain_quiet: "processing s \<Longrightarrow> drain n T (quiet H) s = drain n T H s"
proof (induction n arbitrary: s)
  case 0
  show ?case by simp
next
  case (Suc n)
  show ?case
  proof (cases "queue s")
    case Nil
    then show ?thesis by simp
  next
    case (Cons e rest)
    show ?thesis
    proof (cases "T e")
      case None
      with Cons show ?thesis by simp
    next
      case (Some ty)
      have "drain (Suc n) T (quiet H) s = drain n T (quiet H) (iteration (quiet H) e ty s)"
        using Suc.prems Cons Some by (rule drain_iteration)
      also have "\<dots> = drain n T H (iteration H e ty s)"
        using Suc.prems by (simp add: iteration_quiet Suc.IH)
      also have "\<dots> = drain (Suc n) T H s"
        using Suc.prems Cons Some by (rule drain_iteration [symmetric])
      finally show ?thesis .
    qed
  qed
qed

lemma publish_quiet: "publish n T (quiet H) e s = publish n T H e s"
proof (cases "processing s")
  case True
  then show ?thesis by (simp add: publish_while_processing del: publish.simps)
next
  case False
  then show ?thesis by (simp add: publish_idle drain_quiet del: publish.simps)
qed

text \<open>
  Claim C3. What \<open>publish\<close> does and returns is the same whether handlers raise or not:
  the third component of a handler's result is ignored (\<open>quiet\<close> makes it \<open>False\<close>).
  During a drain the \<open>for\<close> loop invokes every subscriber of the copied list, in order,
  whichever of them raise. When the method \<open>type()\<close> of the events never raises, as
  for the four event classes of the source, a top-level \<open>publish\<close> always returns
  normally, with the queue empty, every enqueued event dispatched, and every dispatched
  event handled by all subscribers of its copied list. It does return, within one
  iteration per pending event, when the handlers publish nothing, whether they raise or
  not.
\<close>

theorem fault_isolation:
  "publish n T (quiet H) e s = publish n T H e s
 \<and> (processing s \<longrightarrow>
      (\<exists>s1. dispatch n T H e subs s = Some s1 \<and> invoked s1 = invoked s @ map (\<lambda>h. (h, e)) subs))
 \<and> (\<not> processing s0 \<and> fifo s0 \<and> (\<forall>x. T x \<noteq> None) \<and> publish n T H e s0 = Some (s', r) \<longrightarrow>
      r = Returned \<and> queue s' = [] \<and> map fst (dispatched s') = enqueued s'
      \<and> invoked s' = grouped (dispatched s'))
 \<and> ((\<forall>h x u. published (fst (snd (H2 h x u))) = []) \<and> length (queue s3) + 1 < m \<longrightarrow>
      (\<exists>s4 r4. publish m T H2 e s3 = Some (s4, r4)))"
proof (intro conjI impI)
  show "publish n T (quiet H) e s = publish n T H e s" by (rule publish_quiet)
  show "\<exists>s1. dispatch n T H e subs s = Some s1 \<and> invoked s1 = invoked s @ map (\<lambda>h. (h, e)) subs"
    if "processing s"
    using dispatch_keeps_flag [OF that, of n T H e subs] by blast
next
  assume a: "\<not> processing s0 \<and> fifo s0 \<and> (\<forall>x. T x \<noteq> None) \<and> publish n T H e s0 = Some (s', r)"
  let ?s1 = "s0\<lparr>queue := queue s0 @ [e], enqueued := enqueued s0 @ [e], processing := True\<rparr>"
  from a have p: "publish n T H e s0 = Some (s', r)" and np: "\<not> processing s0" and ff: "fifo s0"
    and tt: "\<forall>x. T x \<noteq> None" by blast+
  from p np obtain s2 where d: "drain n T H ?s1 = Some (s2, r)"
    by (auto simp: publish_idle split: option.splits)
  from drain_returns [OF d _ tt] show r: "r = Returned" by simp
  from fifo_publish [OF p np ff] have f: "fifo s'" "r = Returned \<longrightarrow> queue s' = []" by blast+
  with r show "queue s' = []" by simp
  with f show "map fst (dispatched s') = enqueued s'" by (simp add: fifo_def)
  from f show "invoked s' = grouped (dispatched s')" by (simp add: fifo_def)
next
  assume "(\<forall>h x u. published (fst (snd (H2 h x u))) = []) \<and> length (queue s3) + 1 < m"
  then show "\<exists>s4 r4. publish m T H2 e s3 = Some (s4, r4)"
    by (intro publish_silent_returns) simp_all
qed


text \<open>
  Two subscribers of one type: the first raises on every event, the second answers event 7
  by publishing event 8. Both receive both events, and \<open>publish\<close> returns normally.
\<close>

theorem fault_isolation_witness:
  "processing ((subscribe ''k'' 1 (subscribe ''k'' 0 (new_service ())))\<lparr>processing := True\<rparr>
       :: (nat, nat, unit) service)
 \<and> (case dispatch 0 (\<lambda>e. Some ''k'') (\<lambda>h e u. (u, if h = 1 \<and> e = 7 then [Publish 8] else [], h = 0))
          7 [0, 1]
          ((subscribe ''k'' 1 (subscribe ''k'' 0 (new_service ())))\<lparr>processing := True\<rparr>
             :: (nat, nat, unit) service) of
       None \<Rightarrow> False
     | Some s1 \<Rightarrow> invoked s1 = [(0, 7), (1, 7)])
 \<and> \<not> processing (subscribe ''k'' 1 (subscribe ''k'' 0 (new_service ())) :: (nat, nat, unit) service)
 \<and> fifo (subscribe ''k'' 1 (subscribe ''k'' 0 (new_service ())) :: (nat, nat, unit) service)
 \<and> (case publish 5 (\<lambda>e. Some ''k'') (\<lambda>h e u. (u, if h = 1 \<and> e = 7 then [Publish 8] else [], h = 0))
          7 (subscribe ''k'' 1 (subscribe ''k'' 0 (new_service ())) :: (nat, nat, unit) service) of
       None \<Rightarrow> False
     | Some (s', r) \<Rightarrow>
         r = Returned \<and> queue s' = [] \<and> invoked s' = [(0, 7), (1, 7), (0, 8), (1, 8)])
 \<and> (case publish 2 (\<lambda>e. Some ''k'') (\<lambda>h e u. (u, [], True))
          7 (subscribe ''k'' 1 (subscribe ''k'' 0 (new_service ())) :: (nat, nat, unit) service) of
       None \<Rightarrow> False
     | Some (s', r) \<Rightarrow> r = Returned \<and> queue s' = [])"
proof -
  let ?idle = "subscribe ''k'' 1 (subscribe ''k'' 0 (new_service ())) :: (nat, nat, unit) service"
  let ?R = "\<lambda>(h::nat) (e::nat) (u::unit). (u, [] :: (nat, nat) call list, True)"
  let ?busy = "?idle\<lparr>processing := True\<rparr>"
  let ?T = "\<lambda>e::nat. Some ''k''"
  let ?H = "\<lambda>(h::nat) (e::nat) (u::unit). (u, if h = 1 \<and> e = 7 then [Publish 8] else [], h = 0)"
  have a: "processing ?busy" by simp
  have b: "\<not> processing ?idle" and c: "fifo ?idle"
    by (simp_all add: new_service_def fifo_def grouped_def)
  have t: "\<forall>x. ?T x \<noteq> None" by simp
  have d: "(case publish 5 ?T ?H 7 ?idle of None \<Rightarrow> False
            | Some (s', r) \<Rightarrow> dispatched s' = [(7, [0, 1]), (8, [0, 1])])"
    by code_simp
  obtain s' r where e: "publish 5 ?T ?H 7 ?idle = Some (s', r)"
    using d by (cases "publish 5 ?T ?H 7 ?idle") (auto simp only: option.case)
  from d have f: "dispatched s' = [(7, [0, 1]), (8, [0, 1])]"
    unfolding e by simp
  have g: "r = Returned \<and> queue s' = [] \<and> map fst (dispatched s') = enqueued s'
      \<and> invoked s' = grouped (dispatched s')"
    using fault_isolation [of 5 ?T ?H 7 ?busy "[0, 1]" ?idle s' r] b c t e by blast
  then have h: "invoked s' = [(0, 7), (1, 7), (0, 8), (1, 8)]"
    by (simp add: f grouped_def)
  obtain s1 where i: "dispatch 0 ?T ?H 7 [0, 1] ?busy = Some s1"
    and j: "invoked s1 = invoked ?busy @ map (\<lambda>h. (h, 7)) [0, 1]"
    using fault_isolation [of 0 ?T ?H 7 ?busy "[0, 1]" ?idle s' r] a by blast
  from j have k: "invoked s1 = [(0, 7), (1, 7)]"
    by (simp add: new_service_def)
  have q: "length (queue ?idle) + 1 < 2" by (simp add: new_service_def)
  have si: "\<forall>h x u. published (fst (snd (?R h x u))) = []" by simp
  obtain s4 r4 where l: "publish 2 ?T ?R 7 ?idle = Some (s4, r4)"
    using fault_isolation [of 2 ?T ?R 7 ?busy "[0, 1]" ?idle s' r ?R ?idle 2] si q by blast
  have m: "r4 = Returned \<and> queue s4 = []"
    using fault_isolation [of 2 ?T ?R 7 ?busy "[0, 1]" ?idle s4 r4 ?R ?idle 2] b c t l by blast
  from a b c g h k m show ?thesis unfolding e i l
    by (simp only: option.case prod.case simp_thms)
qed

section \<open>The copied subscriber list\<close>

text \<open>
  Claim C4. One iteration of the loop, for any handlers: the event at the head of the
  queue is handled by exactly the subscribers that the table holds for its type at the
  moment it is taken from the queue, each once per occurrence and in the order of the
  list, whatever the handlers subscribe or unsubscribe while they run; the loop then goes
  on from the resulting service.
\<close>

theorem snapshot_dispatch:
  assumes "processing s" and "queue s = next # rest" and "T next = Some ty"
  shows "\<exists>s1. dispatch n T H next (subscribers_of s ty)
                 (s\<lparr>queue := rest, dispatched := dispatched s @ [(next, subscribers_of s ty)]\<rparr>) = Some s1
            \<and> drain (Suc n) T H s = drain n T H s1
            \<and> invoked s1 = invoked s @ map (\<lambda>h. (h, next)) (subscribers_of s ty)
            \<and> dispatched s1 = dispatched s @ [(next, subscribers_of s ty)]"
proof -
  let ?shifted = "s\<lparr>queue := rest, dispatched := dispatched s @ [(next, subscribers_of s ty)]\<rparr>"
  have i: "iteration H next ty s = deliver H next (subscribers_of s ty) ?shifted"
    using assms(2) by (simp add: iteration_def)
  have "dispatch n T H next (subscribers_of s ty) ?shifted = Some (iteration H next ty s)"
    using assms(1) by (simp add: i dispatch_while_processing)
  moreover have "drain (Suc n) T H s = drain n T H (iteration H next ty s)"
    using assms by (rule drain_iteration)
  ultimately show ?thesis by simp
qed

text \<open>
  Subscribers 0 and 1 are registered. While it handles an event, subscriber 0 unsubscribes
  subscriber 1, subscribes subscriber 2 and subscribes itself once more. Event 5 still
  goes to 0 and 1, the list copied when it was taken from the queue; event 6, taken
  afterwards, goes to the changed list.
\<close>

theorem snapshot_dispatch_witness:
  "processing ((subscribe ''k'' 1 (subscribe ''k'' 0 (new_service ())))
       \<lparr>queue := [5, 6], processing := True\<rparr> :: (nat, nat, unit) service)
 \<and> (case drain 3 (\<lambda>e. Some ''k'')
          (\<lambda>h e u. (u, if h = 0 then [Unsubscribe ''k'' 1, Subscribe ''k'' 2, Subscribe ''k'' 0] else [], False))
          ((subscribe ''k'' 1 (subscribe ''k'' 0 (new_service ())))
             \<lparr>queue := [5, 6], processing := True\<rparr> :: (nat, nat, unit) service) of
       None \<Rightarrow> False
     | Some (s', r) \<Rightarrow>
         invoked s' = [(0, 5), (1, 5), (0, 6), (2, 6), (0, 6)])
 \<and> (case dispatch 2 (\<lambda>e. Some ''k'')
          (\<lambda>h e u. (u, if h = 0 then [Unsubscribe ''k'' 1, Subscribe ''k'' 2, Subscribe ''k'' 0] else [], False))
          5 [0, 1]
          ((subscribe ''k'' 1 (subscribe ''k'' 0 (new_service ())))
             \<lparr>queue := [6], processing := True, dispatched := [(5, [0, 1])]\<rparr> :: (nat, nat, unit) service) of
       None \<Rightarrow> False
     | Some s1 \<Rightarrow> invoked s1 = [(0, 5), (1, 5)] \<and> subscribers_of s1 ''k'' = [0, 2, 0])"
proof -
  let ?busy = "(subscribe ''k'' 1 (subscribe ''k'' 0 (new_service ())))
       \<lparr>queue := [5, 6], processing := True\<rparr> :: (nat, nat, unit) service"
  let ?step = "(subscribe ''k'' 1 (subscribe ''k'' 0 (new_service ())))
       \<lparr>queue := [6], processing := True, dispatched := [(5, [0, 1])]\<rparr> :: (nat, nat, unit) service"
  let ?T = "\<lambda>e::nat. Some ''k''"
  let ?H = "\<lambda>(h::nat) (e::nat) (u::unit).
      (u, if h = 0 then [Unsubscribe ''k'' 1, Subscribe ''k'' 2, Subscribe ''k'' 0] else [], False)"
  have a: "processing ?busy" and b: "queue ?busy = 5 # [6]" and c: "?T 5 = Some ''k''"
    by simp_all
  have d: "subscribers_of ?busy ''k'' = [0, 1]"
    by (simp add: subscribers_of_def subscribe_def new_service_def)
  have e: "?busy\<lparr>queue := [6], dispatched := dispatched ?busy @ [(5, [0, 1])]\<rparr> = ?step"
    by (simp add: new_service_def)
  have f: "(case drain 3 ?T ?H ?busy of None \<Rightarrow> False
            | Some (s', r) \<Rightarrow> invoked s' = [(0, 5), (1, 5), (0, 6), (2, 6), (0, 6)])"
    by code_simp
  have g: "(case dispatch 2 ?T ?H 5 [0, 1] ?step of None \<Rightarrow> False
            | Some s1 \<Rightarrow> subscribers_of s1 ''k'' = [0, 2, 0])"
    by code_simp
  obtain s1 where h: "dispatch 2 ?T ?H 5 [0, 1] ?step = Some s1"
    and i: "invoked s1 = invoked ?busy @ map (\<lambda>h. (h, 5)) [0, 1]"
    using snapshot_dispatch [OF a b c, of 2 ?H] unfolding d e by blast
  from i have j: "invoked s1 = [(0, 5), (1, 5)]"
    by (simp add: new_service_def)
  from g have k: "subscribers_of s1 ''k'' = [0, 2, 0]"
    unfolding h by simp
  from a f j k show ?thesis unfolding h
    by (simp only: option.case prod.case simp_thms)
qed

section \<open>Unsubscribing\<close>

lemma subscribers_of_unsubscribe:
  "subscribers_of (unsubscribe k h s) k' =
     (if k' = k then filter (\<lambda>x. x \<noteq> h) (subscribers_of s k) else subscribers_of s k')"
  by (simp add: subscribers_of_def unsubscribe_def Let_def split: option.split)

lemma subscribers_of_subscribe:
  "subscribers_of (subscribe k h s) k' =
     (if k' = k then subscribers_of s k @ [h] else subscribers_of s k')"
  by (simp add: subscribers_of_def subscribe_def Let_def split: option.split)

lemma subscribers_of_fields [simp]:
  "subscribers_of (s\<lparr>queue := q\<rparr>) k = subscribers_of s k"
  "subscribers_of (s\<lparr>processing := p\<rparr>) k = subscribers_of s k"
  "subscribers_of (s\<lparr>user := u\<rparr>) k = subscribers_of s k"
  "subscribers_of (s\<lparr>enqueued := en\<rparr>) k = subscribers_of s k"
  "subscribers_of (s\<lparr>dispatched := d\<rparr>) k = subscribers_of s k"
  "subscribers_of (s\<lparr>invoked := i\<rparr>) k = subscribers_of s k"
  by (simp_all add: subscribers_of_def)

lemma absent_perform:
  assumes "h \<notin> set (subscribers_of s k)" and "c \<noteq> Subscribe k h"
  shows "h \<notin> set (subscribers_of (perform c s) k)"
  using assms by (cases c) (auto simp: subscribers_of_subscribe subscribers_of_unsubscribe)

lemma absent_perform_all:
  assumes "h \<notin> set (subscribers_of s k)" and "Subscribe k h \<notin> set cs"
  shows "h \<notin> set (subscribers_of (perform_all cs s) k)"
  using assms
proof (induction cs arbitrary: s)
  case Nil
  then show ?case by simp
next
  case (Cons c cs)
  from Cons.prems have "h \<notin> set (subscribers_of (perform c s) k)"
    by (intro absent_perform) auto
  with Cons show ?case by simp
qed

lemma absent_deliver:
  assumes "h \<notin> set (subscribers_of s k)"
    and "\<forall>h' e' u. Subscribe k h \<notin> set (fst (snd (H h' e' u)))"
  shows "h \<notin> set (subscribers_of (deliver H e subs s) k)"
  using assms(1)
proof (induction subs arbitrary: s)
  case Nil
  then show ?case by simp
next
  case (Cons sub subs)
  obtain u cs thrown where r: "H sub e (user s) = (u, cs, thrown)"
    by (cases "H sub e (user s)") auto
  with assms(2) have "Subscribe k h \<notin> set cs"
    by (metis fst_conv snd_conv)
  with Cons.prems have "h \<notin> set (subscribers_of (perform_all cs (s\<lparr>user := u, invoked := invoked s @ [(sub, e)]\<rparr>)) k)"
    by (intro absent_perform_all) simp_all
  then have "h \<notin> set (subscribers_of (deliver H e subs (perform_all cs (s\<lparr>user := u, invoked := invoked s @ [(sub, e)]\<rparr>))) k)"
    by (rule Cons.IH)
  with r show ?case by simp
qed

lemma absent_drain:
  assumes "drain n T H s = Some (s', r)" and "processing s"
    and "h \<notin> set (subscribers_of s k)"
    and "\<forall>h' e' u. Subscribe k h \<notin> set (fst (snd (H h' e' u)))"
  shows "\<exists>new. invoked s' = invoked s @ new \<and> (\<forall>(h', e') \<in> set new. h' = h \<longrightarrow> T e' \<noteq> Some k)"
proof -
  let ?P = "\<lambda>x. h \<notin> set (subscribers_of x k) \<and>
     (\<exists>new. invoked x = invoked s @ new \<and> (\<forall>(h', e') \<in> set new. h' = h \<longrightarrow> T e' \<noteq> Some k))"
  have "?P s' \<and> processing s' \<and> (r = Returned \<longrightarrow> queue s' = [])"
    using assms(1,2)
  proof (rule drain_invariant [where P = ?P])
    show "?P s" using assms(3) by simp
    show "?P (iteration H e ty x)" if "?P x" and "T e = Some ty" for x :: "('a, 'b, 'c) service" and e ty
    proof -
      from that obtain new where n: "invoked x = invoked s @ new"
        "\<forall>(h', e') \<in> set new. h' = h \<longrightarrow> T e' \<noteq> Some k" and a: "h \<notin> set (subscribers_of x k)"
        by blast
      have "h \<notin> set (subscribers_of (iteration H e ty x) k)"
        unfolding iteration_def using a assms(4) by (intro absent_deliver) simp_all
      moreover have "invoked (iteration H e ty x) = invoked s @ (new @ map (\<lambda>h. (h, e)) (subscribers_of x ty))"
        using n(1) by simp
      moreover have "\<forall>(h', e') \<in> set (new @ map (\<lambda>h. (h, e)) (subscribers_of x ty)). h' = h \<longrightarrow> T e' \<noteq> Some k"
        using n(2) a that(2) by auto
      ultimately show ?thesis by blast
    qed
    show "?P (x\<lparr>queue := rest, dispatched := dispatched x @ [(e, [])]\<rparr>)" if "?P x"
      for x :: "('a, 'b, 'c) service" and e rest
      using that by simp
  qed
  then show ?thesis by blast
qed

lemma no_empty_list_new: "no_empty_list (new_service u)"
  by (simp add: no_empty_list_def new_service_def)

lemma no_empty_list_subscribe: "no_empty_list s \<Longrightarrow> no_empty_list (subscribe k h s)"
  by (simp add: no_empty_list_def subscribe_def Let_def)

lemma no_empty_list_unsubscribe: "no_empty_list s \<Longrightarrow> no_empty_list (unsubscribe k h s)"
  by (cases "subscribers s k") (simp_all add: no_empty_list_def unsubscribe_def Let_def)

lemma no_empty_list_fields [simp]:
  "no_empty_list (s\<lparr>queue := q\<rparr>) = no_empty_list s"
  "no_empty_list (s\<lparr>processing := p\<rparr>) = no_empty_list s"
  "no_empty_list (s\<lparr>user := u\<rparr>) = no_empty_list s"
  "no_empty_list (s\<lparr>enqueued := en\<rparr>) = no_empty_list s"
  "no_empty_list (s\<lparr>dispatched := d\<rparr>) = no_empty_list s"
  "no_empty_list (s\<lparr>invoked := i\<rparr>) = no_empty_list s"
  by (simp_all add: no_empty_list_def)

lemma no_empty_list_perform_all: "no_empty_list s \<Longrightarrow> no_empty_list (perform_all cs s)"
proof (induction cs arbitrary: s)
  case Nil
  then show ?case by simp
next
  case (Cons c cs)
  then have "no_empty_list (perform c s)"
    by (cases c) (simp_all add: no_empty_list_subscribe no_empty_list_unsubscribe)
  with Cons show ?case by simp
qed

lemma no_empty_list_deliver: "no_empty_list s \<Longrightarrow> no_empty_list (deliver H e subs s)"
  by (induction subs arbitrary: s) (simp_all add: no_empty_list_perform_all split: prod.split)

lemma no_empty_list_publish:
  assumes "publish n T H e s = Some (s', r)" and "no_empty_list s"
  shows "no_empty_list s'"
proof (cases "processing s")
  case True
  with assms show ?thesis by (auto simp: publish_while_processing simp del: publish.simps)
next
  case False
  let ?s1 = "s\<lparr>queue := queue s @ [e], enqueued := enqueued s @ [e], processing := True\<rparr>"
  from assms(1) False obtain s2 where d: "drain n T H ?s1 = Some (s2, r)" and s': "s' = s2\<lparr>processing := False\<rparr>"
    by (auto simp: publish_idle split: option.splits)
  have "no_empty_list s2 \<and> processing s2 \<and> (r = Returned \<longrightarrow> queue s2 = [])"
    using d
  proof (rule drain_invariant [where P = no_empty_list])
    show "processing ?s1" by simp
    show "no_empty_list ?s1" using assms(2) by simp
    show "no_empty_list (iteration H x ty t)" if "no_empty_list t" for t :: "('a, 'b, 'c) service" and x ty
      unfolding iteration_def using that by (intro no_empty_list_deliver) simp
    show "no_empty_list (t\<lparr>queue := rest, dispatched := dispatched t @ [(x, [])]\<rparr>)" if "no_empty_list t"
      for t :: "('a, 'b, 'c) service" and x rest
      using that by simp
  qed
  with s' show ?thesis by simp
qed

text \<open>
  Claim C7. \<open>unsubscribe(k, h)\<close> leaves for \<open>k\<close> the former list without any occurrence
  of \<open>h\<close>, the other subscribers in their order; when nothing is left the entry is
  deleted, otherwise it holds the filtered list; the lists of the other types are not
  touched. When the type has no entry, or when \<open>h\<close> is not in its list, the service is
  unchanged (the list of an entry is never empty, see \<open>no_empty_list\<close>). A \<open>publish\<close>
  that follows, with handlers that do not subscribe \<open>h\<close> to \<open>k\<close> again, invokes \<open>h\<close> for
  no event of type \<open>k\<close>: among the calls of \<open>handle\<close> it adds to the log, none is a call
  of \<open>h\<close> with such an event.
\<close>

theorem unsubscribe_correct:
  "subscribers_of (unsubscribe k h s) k = filter (\<lambda>x. x \<noteq> h) (subscribers_of s k)
 \<and> (filter (\<lambda>x. x \<noteq> h) (subscribers_of s k) = [] \<longrightarrow> subscribers (unsubscribe k h s) k = None)
 \<and> (filter (\<lambda>x. x \<noteq> h) (subscribers_of s k) \<noteq> [] \<longrightarrow>
      subscribers (unsubscribe k h s) k = Some (filter (\<lambda>x. x \<noteq> h) (subscribers_of s k)))
 \<and> (k' \<noteq> k \<longrightarrow> subscribers (unsubscribe k h s) k' = subscribers s k')
 \<and> (subscribers s2 k2 = None \<or> (h2 \<notin> set (subscribers_of s2 k2) \<and> subscribers s2 k2 \<noteq> Some []) \<longrightarrow>
      unsubscribe k2 h2 s2 = s2)
 \<and> (\<not> processing s \<and> (\<forall>h' e' u. Subscribe k h \<notin> set (fst (snd (H h' e' u))))
      \<and> publish n T H e (unsubscribe k h s) = Some (s', r) \<longrightarrow>
      (\<exists>new. invoked s' = invoked s @ new \<and> (\<forall>(h', e') \<in> set new. h' = h \<longrightarrow> T e' \<noteq> Some k)))"
proof (intro conjI impI)
  show "subscribers_of (unsubscribe k h s) k = filter (\<lambda>x. x \<noteq> h) (subscribers_of s k)"
    by (simp add: subscribers_of_unsubscribe)
  show "subscribers (unsubscribe k h s) k = None" if "filter (\<lambda>x. x \<noteq> h) (subscribers_of s k) = []"
    using that by (cases "subscribers s k") (simp_all add: subscribers_of_def unsubscribe_def Let_def)
  show "subscribers (unsubscribe k h s) k = Some (filter (\<lambda>x. x \<noteq> h) (subscribers_of s k))"
    if "filter (\<lambda>x. x \<noteq> h) (subscribers_of s k) \<noteq> []"
    using that by (cases "subscribers s k") (simp_all add: subscribers_of_def unsubscribe_def Let_def)
  show "subscribers (unsubscribe k h s) k' = subscribers s k'" if "k' \<noteq> k"
    using that by (cases "subscribers s k") (simp_all add: unsubscribe_def Let_def)
  show "unsubscribe k2 h2 s2 = s2"
    if "subscribers s2 k2 = None \<or> (h2 \<notin> set (subscribers_of s2 k2) \<and> subscribers s2 k2 \<noteq> Some [])"
  proof (cases "subscribers s2 k2")
    case None
    then show ?thesis by (simp add: unsubscribe_def)
  next
    case (Some list)
    with that have "filter (\<lambda>x. x \<noteq> h2) list = list" "list \<noteq> []"
      by (auto simp: subscribers_of_def filter_id_conv)
    moreover have "(subscribers s2)(k2 \<mapsto> list) = subscribers s2"
      using Some by (rule map_upd_triv)
    ultimately show ?thesis using Some by (simp add: unsubscribe_def)
  qed
next
  assume a: "\<not> processing s \<and> (\<forall>h' e' u. Subscribe k h \<notin> set (fst (snd (H h' e' u))))
      \<and> publish n T H e (unsubscribe k h s) = Some (s', r)"
  let ?u = "unsubscribe k h s"
  let ?s1 = "?u\<lparr>queue := queue ?u @ [e], enqueued := enqueued ?u @ [e], processing := True\<rparr>"
  from a have np: "\<not> processing ?u" by simp
  from a have p: "publish n T H e ?u = Some (s', r)" by blast
  from p np obtain s2 where d: "drain n T H ?s1 = Some (s2, r)" and s': "s' = s2\<lparr>processing := False\<rparr>"
    by (auto simp: publish_idle split: option.splits)
  from a have ns: "\<forall>h' e' u. Subscribe k h \<notin> set (fst (snd (H h' e' u)))" by blast
  have ab: "h \<notin> set (subscribers_of ?s1 k)"
    by (simp add: subscribers_of_unsubscribe)
  have pr: "processing ?s1" by simp
  have "\<exists>new. invoked s2 = invoked ?s1 @ new \<and> (\<forall>(h', e') \<in> set new. h' = h \<longrightarrow> T e' \<noteq> Some k)"
    using d pr ab ns by (rule absent_drain)
  with s' show "\<exists>new. invoked s' = invoked s @ new \<and> (\<forall>(h', e') \<in> set new. h' = h \<longrightarrow> T e' \<noteq> Some k)"
    by simp
qed


theorem unsubscribe_correct_witness:
  "subscribers_of (unsubscribe ''k'' 0
      (subscribe ''k'' 2 (subscribe ''k'' 0 (subscribe ''k'' 1 (subscribe ''k'' 0 (new_service ()))))
         :: (nat, nat, unit) service)) ''k'' = [1, 2]
 \<and> subscribers (unsubscribe ''k'' 0 (subscribe ''k'' 0 (new_service ()) :: (nat, nat, unit) service)) ''k'' = None
 \<and> unsubscribe ''z'' 0
      (subscribe ''k'' 2 (subscribe ''k'' 0 (subscribe ''k'' 1 (subscribe ''k'' 0 (new_service ()))))
         :: (nat, nat, unit) service)
    = subscribe ''k'' 2 (subscribe ''k'' 0 (subscribe ''k'' 1 (subscribe ''k'' 0 (new_service ()))))
 \<and> unsubscribe ''k'' 7
      (subscribe ''k'' 2 (subscribe ''k'' 0 (subscribe ''k'' 1 (subscribe ''k'' 0 (new_service ()))))
         :: (nat, nat, unit) service)
    = subscribe ''k'' 2 (subscribe ''k'' 0 (subscribe ''k'' 1 (subscribe ''k'' 0 (new_service ()))))
 \<and> (case publish 3 (\<lambda>e. Some ''k'') (\<lambda>h e u. (u, [], False)) 9
          (unsubscribe ''k'' 0
            (subscribe ''k'' 2 (subscribe ''k'' 0 (subscribe ''k'' 1 (subscribe ''k'' 0 (new_service ()))))
               :: (nat, nat, unit) service)) of
       None \<Rightarrow> False
     | Some (s', r) \<Rightarrow> invoked s' = [(1, 9), (2, 9)])"
proof -
  let ?S = "subscribe ''k'' 2 (subscribe ''k'' 0 (subscribe ''k'' 1 (subscribe ''k'' 0 (new_service ()))))
         :: (nat, nat, unit) service"
  let ?one = "subscribe ''k'' 0 (new_service ()) :: (nat, nat, unit) service"
  let ?T = "\<lambda>e::nat. Some ''k''"
  let ?H = "\<lambda>(h::nat) (e::nat) (u::unit). (u, [] :: (nat, nat) call list, False)"
  have l: "subscribers_of ?S ''k'' = [0, 1, 0, 2]" and l1: "subscribers_of ?one ''k'' = [0]"
    by (simp_all add: subscribers_of_subscribe) (simp_all add: subscribers_of_def new_service_def)
  have z: "subscribers ?S ''z'' = None" and k: "subscribers ?S ''k'' \<noteq> Some []"
    by (simp_all add: subscribe_def new_service_def)
  have a: "subscribers_of (unsubscribe ''k'' 0 ?S) ''k'' = [1, 2]"
  proof -
    have "subscribers_of (unsubscribe ''k'' 0 ?S) ''k'' = filter (\<lambda>x. x \<noteq> 0) (subscribers_of ?S ''k'')"
      by (rule unsubscribe_correct [of "''k''" 0 ?S "''z''" ?S "''z''" 0 ?H 3 ?T 9, THEN conjunct1])
    also have "\<dots> = [1, 2]" unfolding l by simp
    finally show ?thesis .
  qed
  have b: "subscribers (unsubscribe ''k'' 0 ?one) ''k'' = None"
  proof -
    have "filter (\<lambda>x. x \<noteq> 0) (subscribers_of ?one ''k'') = []" unfolding l1 by simp
    then show ?thesis
      using unsubscribe_correct [of "''k''" 0 ?one "''z''" ?S "''z''" 0 ?H 3 ?T 9] by blast
  qed
  have c: "unsubscribe ''z'' 0 ?S = ?S"
    using unsubscribe_correct [of "''k''" 0 ?S "''z''" ?S "''z''" 0 ?H 3 ?T 9] z by blast
  have d: "unsubscribe ''k'' 7 ?S = ?S"
  proof -
    have "7 \<notin> set (subscribers_of ?S ''k'')" unfolding l by simp
    then show ?thesis
      using unsubscribe_correct [of "''k''" 0 ?S "''z''" ?S "''k''" 7 ?H 3 ?T 9] k by blast
  qed
  have np: "\<not> processing ?S" by (simp add: new_service_def)
  have ns: "\<forall>h' e' u. Subscribe ''k'' 0 \<notin> set (fst (snd (?H h' e' u)))" by simp
  have e: "(case publish 3 ?T ?H 9 (unsubscribe ''k'' 0 ?S) of None \<Rightarrow> False
            | Some (s', r) \<Rightarrow> invoked s' = [(1, 9), (2, 9)])"
    by code_simp
  obtain s' r where f: "publish 3 ?T ?H 9 (unsubscribe ''k'' 0 ?S) = Some (s', r)"
    using e by (cases "publish 3 ?T ?H 9 (unsubscribe ''k'' 0 ?S)") (auto simp only: option.case)
  from e have g: "invoked s' = [(1, 9), (2, 9)]"
    unfolding f by simp
  have "\<exists>new. invoked s' = invoked ?S @ new \<and> (\<forall>(h', e') \<in> set new. h' = 0 \<longrightarrow> ?T e' \<noteq> Some ''k'')"
    using unsubscribe_correct [of "''k''" 0 ?S "''z''" ?S "''z''" 0 ?H 3 ?T 9 s' r] np ns f by blast
  with a b c d g show ?thesis unfolding f
    by (simp only: option.case prod.case simp_thms)
qed

section \<open>The machine\<close>

text \<open>
  Claim C8 says that a machine can be constructed with any chosen id and any chosen
  starting stock level. The constructor has one parameter, the id. For the id 001 and the
  stock level 5: the machine constructed for 001 carries the id 001 and the stock level
  10, not 5.
\<close>

theorem Machine_stock_counterexample:
  "id_m (new_Machine ''001'') = ''001'' \<and> stockLevel (new_Machine ''001'') = Fin 10
   \<and> stockLevel (new_Machine ''001'') \<noteq> Fin 5"
  by (simp add: new_Machine_def)

text \<open>
  Claim C8, amended. The constructor of lines 111-113 takes the id alone: the machine it
  constructs carries exactly that id, and the stock level 10 of line 108.
\<close>

theorem Machine_constructor:
  "id_m (new_Machine i) = i \<and> stockLevel (new_Machine i) = Fin 10"
  by (simp add: new_Machine_def)

section \<open>The subscribers of the program\<close>

lemma find_pos_Some:
  "find_pos P xs = Some i \<Longrightarrow> i < length xs \<and> P (xs ! i) \<and> (\<forall>j < i. \<not> P (xs ! j))"
proof (induction xs arbitrary: i)
  case Nil
  then show ?case by simp
next
  case (Cons x xs)
  show ?case
  proof (cases "P x")
    case True
    with Cons.prems show ?thesis by simp
  next
    case False
    with Cons.prems obtain k where k: "find_pos P xs = Some k" "i = Suc k" by auto
    from Cons.IH [OF k(1)] False k(2) show ?thesis by (auto simp: less_Suc_eq_0_disj)
  qed
qed

lemma find_pos_None: "find_pos P xs = None \<longleftrightarrow> (\<forall>x \<in> set xs. \<not> P x)"
  by (induction xs) auto

lemma find_pos_update:
  assumes "i < length xs" and "P y = P (xs ! i)"
  shows "find_pos P (xs[i := y]) = find_pos P xs"
  using assms
proof (induction xs arbitrary: i)
  case Nil
  then show ?case by simp
next
  case (Cons x xs)
  then show ?case by (cases i) simp_all
qed

lemma subscribers_wire:
  "subscribers (wire ms) =
     [''sale'' \<mapsto> [SaleSubscriber, StockWarning], ''refill'' \<mapsto> [RefillSubscriber, StockWarning],
      ''low-stock'' \<mapsto> [AlertLogger], ''stock-ok'' \<mapsto> [AlertLogger]]"
  by (rule ext) (simp add: wire_def subscribe_def new_service_def)

lemma wired_wire: "wired (wire ms)"
  by (simp add: wired_def program_def subscribers_wire)

lemma wired_subscribers_of:
  assumes "wired s"
  shows "subscribers_of s (type e) =
           (case e of
              MachineSaleEvent q m \<Rightarrow> [SaleSubscriber, StockWarning]
            | MachineRefillEvent q m \<Rightarrow> [RefillSubscriber, StockWarning]
            | _ \<Rightarrow> [AlertLogger])"
  using assms by (cases e) (simp_all add: wired_def program_def subscribers_wire subscribers_of_def)

lemma handle_only_publishes:
  "\<forall>h e u. \<forall>c \<in> set (fst (snd (handle t h e u))). \<exists>x. c = Publish x"
proof (intro allI)
  fix h e u
  show "\<forall>c \<in> set (fst (snd (handle t h e u))). \<exists>x. c = Publish x"
    by (cases h)
       (auto simp: MachineSaleSubscriber_handle_def MachineRefillSubscriber_handle_def
          StockWarningSubscriber_handle_def StockAlertLogger_handle_def Let_def
          split: option.splits if_splits)
qed

lemma wired_fields [simp]:
  "wired (s\<lparr>queue := q\<rparr>) = wired s"
  "wired (s\<lparr>processing := p\<rparr>) = wired s"
  "wired (s\<lparr>user := u\<rparr>) = wired s"
  "wired (s\<lparr>enqueued := en\<rparr>) = wired s"
  "wired (s\<lparr>dispatched := d\<rparr>) = wired s"
  "wired (s\<lparr>invoked := i\<rparr>) = wired s"
  by (simp_all add: wired_def)

lemma iteration_wired:
  assumes "wired s" and "queue s = e # rest"
  shows "wired (iteration (handle t) e ty s)"
    and "user (iteration (handle t) e ty s) = fst (run_handlers (handle t) e (subscribers_of s ty) (user s))"
    and "queue (iteration (handle t) e ty s) =
           rest @ published (snd (run_handlers (handle t) e (subscribers_of s ty) (user s)))"
    and "enqueued (iteration (handle t) e ty s) =
           enqueued s @ published (snd (run_handlers (handle t) e (subscribers_of s ty) (user s)))"
proof -
  let ?shifted = "s\<lparr>queue := tl (queue s), dispatched := dispatched s @ [(e, subscribers_of s ty)]\<rparr>"
  have "subscribers (iteration (handle t) e ty s) = subscribers ?shifted"
    unfolding iteration_def by (rule only_publish_deliver [OF handle_only_publishes])
  with assms(1) show "wired (iteration (handle t) e ty s)" by (simp add: wired_def)
  from deliver_run_handlers [of "handle t" e "subscribers_of s ty" ?shifted] assms(2)
  show "user (iteration (handle t) e ty s) = fst (run_handlers (handle t) e (subscribers_of s ty) (user s))"
    and "queue (iteration (handle t) e ty s) =
           rest @ published (snd (run_handlers (handle t) e (subscribers_of s ty) (user s)))"
    and "enqueued (iteration (handle t) e ty s) =
           enqueued s @ published (snd (run_handlers (handle t) e (subscribers_of s ty) (user s)))"
    by (simp_all add: iteration_def)
qed


lemma run_alert:
  assumes "is_alert a"
  shows "run_handlers (handle t) a [AlertLogger] w = (w\<lparr>console := console w @ [alert_line a]\<rparr>, [])"
  using assms by (cases a) (simp_all add: StockAlertLogger_handle_def)

lemma run_stock_unknown:
  assumes "\<not> is_alert e" and "find_pos (\<lambda>m. id_m m = machineId e) (machines w) = None"
  shows "run_handlers (handle t) e [SaleSubscriber, StockWarning] w = (w, [])"
    and "run_handlers (handle t) e [RefillSubscriber, StockWarning] w = (w, [])"
  using assms
  by (cases e; simp add: MachineSaleSubscriber_handle_def MachineRefillSubscriber_handle_def
        StockWarningSubscriber_handle_def)+

lemma watcher_known:
  assumes "\<not> is_alert e" and "find_pos (\<lambda>m. id_m m = machineId e) (machines w) = Some i"
    and "StockWarningSubscriber_handle t e w = (w', cs, thrown)"
  shows "machines w' = machines w" and "console w' = console w"
    and "below w' = (if number_less (stockLevel (machines w ! i)) t then insert (machineId e) (below w)
                     else below w - {machineId e})"
    and "published cs = watcher_alerts t (below w) (machineId e) (stockLevel (machines w ! i))"
proof -
  from find_pos_Some [OF assms(2)] have m: "id_m (machines w ! i) = machineId e" by simp
  from assms(1) have ty: "type e = ''sale'' \<or> type e = ''refill''" by (cases e) simp_all
  from assms(3) ty show "machines w' = machines w" and "console w' = console w"
    by (auto simp: StockWarningSubscriber_handle_def assms(2) Let_def split: if_splits)
  from assms(3) ty show "below w' = (if number_less (stockLevel (machines w ! i)) t then insert (machineId e) (below w)
                     else below w - {machineId e})"
    by (auto simp: StockWarningSubscriber_handle_def assms(2) Let_def m split: if_splits)
  from assms(3) ty show "published cs = watcher_alerts t (below w) (machineId e) (stockLevel (machines w ! i))"
    by (auto simp: StockWarningSubscriber_handle_def assms(2) Let_def m watcher_alerts_def split: if_splits)
qed

lemma run_stock_known:
  assumes "\<not> is_alert e" and "find_pos (\<lambda>m. id_m m = machineId e) (machines w) = Some i"
    and "subs = (case e of MachineSaleEvent q m \<Rightarrow> [SaleSubscriber, StockWarning]
                 | _ \<Rightarrow> [RefillSubscriber, StockWarning])"
    and "run_handlers (handle t) e subs w = (w', cs)"
    and "level = stock_after e (stockLevel (machines w ! i))"
  shows "machines w' = (machines w)[i := (machines w ! i)\<lparr>stockLevel := level\<rparr>]"
    and "console w' = console w"
    and "below w' = (if number_less level t then insert (machineId e) (below w)
                     else below w - {machineId e})"
    and "published cs = watcher_alerts t (below w) (machineId e) level"
proof -
  let ?ms = "(machines w)[i := (machines w ! i)\<lparr>stockLevel := level\<rparr>]"
  let ?w1 = "w\<lparr>machines := ?ms\<rparr>"
  from find_pos_Some [OF assms(2)] have i: "i < length (machines w)" by simp
  have mut: "handle t (hd subs) e w = (?w1, [], False)"
    using assms(1,2,3,5)
    by (cases e) (simp_all add: MachineSaleSubscriber_handle_def MachineRefillSubscriber_handle_def)
  have subs: "subs = [hd subs, StockWarning]"
    using assms(3) by (cases e) simp_all
  have f: "find_pos (\<lambda>m. id_m m = machineId e) (machines ?w1) = Some i"
    using assms(2) i by (simp add: find_pos_update)
  obtain w2 cs2 thrown where h: "StockWarningSubscriber_handle t e ?w1 = (w2, cs2, thrown)"
    by (cases "StockWarningSubscriber_handle t e ?w1") auto
  have "run_handlers (handle t) e [hd subs, StockWarning] w = (w2, cs2)"
    by (simp add: mut h)
  with assms(4) subs have eq: "w' = w2" "cs = cs2" by simp_all
  have l: "stockLevel (machines ?w1 ! i) = level" using i by simp
  from watcher_known [OF assms(1) f h] show "machines w' = ?ms" and "console w' = console w"
    and "below w' = (if number_less level t then insert (machineId e) (below w)
                     else below w - {machineId e})"
    and "published cs = watcher_alerts t (below w) (machineId e) level"
    unfolding eq l by simp_all
qed

lemma drain_alerts:
  assumes "wired s" and "processing s" and "\<forall>a \<in> set (queue s). is_alert a" and "length (queue s) < n"
  shows "\<exists>s'. drain n event_type (handle t) s = Some (s', Returned) \<and> queue s' = [] \<and> processing s'
           \<and> wired s' \<and> enqueued s' = enqueued s \<and> machines (user s') = machines (user s)
           \<and> below (user s') = below (user s)
           \<and> console (user s') = console (user s) @ map alert_line (queue s)"
  using assms
proof (induction n arbitrary: s)
  case 0
  then show ?case by simp
next
  case (Suc n)
  show ?case
  proof (cases "queue s")
    case Nil
    with Suc.prems show ?thesis by simp
  next
    case (Cons a rest)
    let ?s2 = "iteration (handle t) a (type a) s"
    from Suc.prems(3) Cons have a: "is_alert a" by simp
    have sub: "subscribers_of s (type a) = [AlertLogger]"
      using a wired_subscribers_of [OF Suc.prems(1), of a] by (cases a) simp_all
    have d: "drain (Suc n) event_type (handle t) s = drain n event_type (handle t) ?s2"
      using Suc.prems(2) Cons by (intro drain_iteration) (simp_all add: event_type_def)
    note it = iteration_wired [OF Suc.prems(1) Cons, of t "type a", unfolded sub run_alert [OF a]]
    have "\<exists>s'. drain n event_type (handle t) ?s2 = Some (s', Returned) \<and> queue s' = [] \<and> processing s'
           \<and> wired s' \<and> enqueued s' = enqueued ?s2 \<and> machines (user s') = machines (user ?s2)
           \<and> below (user s') = below (user ?s2)
           \<and> console (user s') = console (user ?s2) @ map alert_line (queue ?s2)"
    proof (rule Suc.IH)
      show "wired ?s2" by (rule it(1))
      show "processing ?s2" using Suc.prems(2) by simp
      show "\<forall>a \<in> set (queue ?s2). is_alert a" using Suc.prems(3) Cons by (simp add: it(3))
      show "length (queue ?s2) < n" using Suc.prems(4) Cons by (simp add: it(3))
    qed
    then show ?thesis unfolding d using Cons by (simp add: it)
  qed
qed

section \<open>A top-level publish in the program\<close>

lemma watcher_alerts_are_alerts: "\<forall>a \<in> set (watcher_alerts t b m level). is_alert a"
  by (simp add: watcher_alerts_def)

lemma watcher_alerts_length: "length (watcher_alerts t b m level) \<le> 1"
  by (simp add: watcher_alerts_def)

lemma publish_stock_event:
  assumes "wired s" and "\<not> processing s" and "queue s = []" and "\<not> is_alert e"
    and "find_pos (\<lambda>m. id_m m = machineId e) (machines (user s)) = Some i"
    and "level = stock_after e (stockLevel (machines (user s) ! i))"
    and "alerts = watcher_alerts t (below (user s)) (machineId e) level"
  shows "\<exists>s'. publish (Suc (Suc (Suc n))) event_type (handle t) e s = Some (s', Returned)
           \<and> queue s' = [] \<and> \<not> processing s' \<and> wired s'
           \<and> machines (user s') = (machines (user s))[i := (machines (user s) ! i)\<lparr>stockLevel := level\<rparr>]
           \<and> below (user s') = (if number_less level t then insert (machineId e) (below (user s))
                                 else below (user s) - {machineId e})
           \<and> enqueued s' = enqueued s @ e # alerts
           \<and> console (user s') = console (user s) @ map alert_line alerts"
proof -
  let ?H = "handle t"
  let ?s1 = "s\<lparr>queue := queue s @ [e], enqueued := enqueued s @ [e], processing := True\<rparr>"
  let ?s2 = "iteration ?H e (type e) ?s1"
  let ?subs = "case e of MachineSaleEvent q m \<Rightarrow> [SaleSubscriber, StockWarning]
                 | _ \<Rightarrow> [RefillSubscriber, StockWarning]"
  have w1: "wired ?s1" and p1: "processing ?s1" and q1: "queue ?s1 = e # []"
    using assms(1,3) by simp_all
  have sub: "subscribers_of ?s1 (type e) = ?subs"
    using assms(4) wired_subscribers_of [OF w1, of e] by (cases e) simp_all
  obtain w' cs where r: "run_handlers ?H e ?subs (user s) = (w', cs)"
    by (cases "run_handlers ?H e ?subs (user s)") auto
  note k = run_stock_known [OF assms(4,5) refl r assms(6), folded assms(7)]
  note it = iteration_wired [OF w1 q1, of t "type e", unfolded sub, simplified, unfolded r fst_conv snd_conv k(4)]
  have d1: "drain (Suc (Suc (Suc n))) event_type ?H ?s1 = drain (Suc (Suc n)) event_type ?H ?s2"
    using p1 q1 by (intro drain_iteration) (simp_all add: event_type_def)
  have "\<exists>s'. drain (Suc (Suc n)) event_type ?H ?s2 = Some (s', Returned) \<and> queue s' = [] \<and> processing s'
           \<and> wired s' \<and> enqueued s' = enqueued ?s2 \<and> machines (user s') = machines (user ?s2)
           \<and> below (user s') = below (user ?s2)
           \<and> console (user s') = console (user ?s2) @ map alert_line (queue ?s2)"
  proof (rule drain_alerts)
    show "wired ?s2" by (rule it(1))
    show "processing ?s2" by simp
    show "\<forall>a \<in> set (queue ?s2). is_alert a"
      unfolding it(3) assms(7) using watcher_alerts_are_alerts by simp
    show "length (queue ?s2) < Suc (Suc n)"
      unfolding it(3) assms(7) using watcher_alerts_length [of t "below (user s)" "machineId e" level] by simp
  qed
  then obtain s3 where s3: "drain (Suc (Suc n)) event_type ?H ?s2 = Some (s3, Returned)"
    "queue s3 = []" "wired s3" "enqueued s3 = enqueued ?s2" "machines (user s3) = machines (user ?s2)"
    "below (user s3) = below (user ?s2)"
    "console (user s3) = console (user ?s2) @ map alert_line (queue ?s2)"
    by blast
  have "publish (Suc (Suc (Suc n))) event_type ?H e s = Some (s3\<lparr>processing := False\<rparr>, Returned)"
    by (simp only: publish_idle [OF assms(2)] d1 s3(1) option.case prod.case)
  moreover have "machines (user s3) = (machines (user s))[i := (machines (user s) ! i)\<lparr>stockLevel := level\<rparr>]"
    using s3(5) it(2) k(1) by simp
  moreover have "below (user s3) = (if number_less level t then insert (machineId e) (below (user s))
                                 else below (user s) - {machineId e})"
    using s3(6) it(2) k(3) by simp
  moreover have "enqueued s3 = enqueued s @ e # alerts"
    using s3(4) it(4) by simp
  moreover have "console (user s3) = console (user s) @ map alert_line alerts"
    using s3(7) it(2,3) k(2) by simp
  ultimately show ?thesis using s3(2,3) by simp
qed


lemma publish_unknown_machine:
  assumes "wired s" and "\<not> processing s" and "queue s = []" and "\<not> is_alert e"
    and "find_pos (\<lambda>m. id_m m = machineId e) (machines (user s)) = None"
  shows "\<exists>s'. publish (Suc (Suc n)) event_type (handle t) e s = Some (s', Returned)
           \<and> queue s' = [] \<and> \<not> processing s' \<and> wired s'
           \<and> user s' = user s \<and> enqueued s' = enqueued s @ [e]"
proof -
  let ?H = "handle t"
  let ?s1 = "s\<lparr>queue := queue s @ [e], enqueued := enqueued s @ [e], processing := True\<rparr>"
  let ?s2 = "iteration ?H e (type e) ?s1"
  have w1: "wired ?s1" and p1: "processing ?s1" and q1: "queue ?s1 = e # []"
    using assms(1,3) by simp_all
  have r: "run_handlers ?H e (subscribers_of s (type e)) (user s) = (user s, [])"
    using assms(4) wired_subscribers_of [OF assms(1), of e] run_stock_unknown [OF assms(4,5), of t]
    by (cases e) simp_all
  note it = iteration_wired [OF w1 q1, of t "type e", simplified, unfolded r fst_conv snd_conv]
  have d1: "drain (Suc (Suc n)) event_type ?H ?s1 = drain (Suc n) event_type ?H ?s2"
    using p1 q1 by (intro drain_iteration) (simp_all add: event_type_def)
  have d2: "drain (Suc n) event_type ?H ?s2 = Some (?s2, Returned)"
    using it(3) by (intro drain_empty) simp
  have "publish (Suc (Suc n)) event_type ?H e s = Some (?s2\<lparr>processing := False\<rparr>, Returned)"
    by (simp only: publish_idle [OF assms(2)] d1 d2 option.case prod.case)
  with it show ?thesis by simp
qed

section \<open>The stock subscribers\<close>

lemma find_pos_present: "(\<exists>i. find_pos P xs = Some i) \<longleftrightarrow> (\<exists>x \<in> set xs. P x)"
  using find_pos_None [of P xs] by (cases "find_pos P xs") auto

lemma program_idle:
  "wired program" "\<not> processing program" "queue program = []" "enqueued program = []"
  "machines (user program) = program_machines" "console (user program) = []"
  "below (user program) = new_StockWarningSubscriber program_machines default_threshold"
  by (simp_all add: program_def wired_wire) (simp_all add: wire_def new_service_def)

lemma program_stock: "map stockLevel program_machines = [Fin 10, Fin 10, Fin 10]"
  and program_ids: "map id_m program_machines = [''001'', ''002'', ''003'']"
  by (simp_all add: program_machines_def new_Machine_def)

text \<open>
  Claim C6 says that the sale subscriber lowers the stock level by the quantity sold and
  the refill subscriber raises it by the quantity refilled. Lines 85 and 101 compute on
  doubles. Machine 001 of the program holds 10. \<open>2^53 - 1\<close> is a number, and a refill of
  that quantity leaves the machine at 9007199254741000, which is 10 plus \<open>2^53 - 2\<close>:
  the sum 9007199254741001 is not a double.
\<close>

theorem stock_mutation_counterexample:
  "is_number 9007199254740991
 \<and> id_m (machines (user program) ! 0) = ''001''
 \<and> stockLevel (machines (user program) ! 0) = Fin 10
 \<and> stockLevel (machines (fst (MachineRefillSubscriber_handle
        (MachineRefillEvent 9007199254740991 ''001'') (user program))) ! 0) = Fin 9007199254741000
 \<and> Fin 9007199254741000 \<noteq> Fin (10 + 9007199254740991)"
  by code_simp

text \<open>
  Claim C6, amended. The sale subscriber, given a sale event for an id that the array
  holds, stores in the first machine with that id the double nearest to its stock level
  minus the quantity sold, and the refill subscriber, given a refill event, the double
  nearest to the level plus the quantity; neither makes a service call or raises. When
  level, quantity and result are safe integers, the stored level is exactly the level
  minus, or plus, the quantity. Given an event of another type, or one whose id the
  array does not hold, each returns with the heap unchanged. In the program, a top-level
  \<open>publish\<close> of a sale or refill event for an unknown id returns normally and leaves the
  whole heap (machines, private set, console) as it was, and the only event enqueued is
  the event itself.
\<close>

theorem stock_mutation_subscribers:
  "(find_pos (\<lambda>m. id_m m = mid) (machines w) = Some i \<longrightarrow>
      i < length (machines w) \<and> id_m (machines w ! i) = mid
    \<and> MachineSaleSubscriber_handle (MachineSaleEvent q mid) w =
        (w\<lparr>machines := (machines w)
             [i := (machines w ! i)\<lparr>stockLevel := number_sub (stockLevel (machines w ! i)) q\<rparr>]\<rparr>,
         [], False)
    \<and> MachineRefillSubscriber_handle (MachineRefillEvent q mid) w =
        (w\<lparr>machines := (machines w)
             [i := (machines w ! i)\<lparr>stockLevel := number_add (stockLevel (machines w ! i)) q\<rparr>]\<rparr>,
         [], False))
 \<and> (find_pos (\<lambda>m. id_m m = mid) (machines w) = Some i \<and> stockLevel (machines w ! i) = Fin a
      \<and> safe a \<and> safe q \<longrightarrow>
      (safe (a - q) \<longrightarrow>
         stockLevel (machines (fst (MachineSaleSubscriber_handle (MachineSaleEvent q mid) w)) ! i)
           = Fin (a - q))
    \<and> (safe (a + q) \<longrightarrow>
         stockLevel (machines (fst (MachineRefillSubscriber_handle (MachineRefillEvent q mid) w)) ! i)
           = Fin (a + q)))
 \<and> (mid \<in> id_m ` set (machines w) \<longrightarrow> (\<exists>i. find_pos (\<lambda>m. id_m m = mid) (machines w) = Some i))
 \<and> (type e \<noteq> ''sale'' \<or> machineId e \<notin> id_m ` set (machines w2) \<longrightarrow>
      MachineSaleSubscriber_handle e w2 = (w2, [], False))
 \<and> (type e \<noteq> ''refill'' \<or> machineId e \<notin> id_m ` set (machines w2) \<longrightarrow>
      MachineRefillSubscriber_handle e w2 = (w2, [], False))
 \<and> (wired s \<and> \<not> processing s \<and> queue s = [] \<and> \<not> is_alert e3
      \<and> machineId e3 \<notin> id_m ` set (machines (user s)) \<longrightarrow>
      (\<exists>s'. publish (Suc (Suc n)) event_type (handle t) e3 s = Some (s', Returned)
         \<and> user s' = user s \<and> enqueued s' = enqueued s @ [e3] \<and> queue s' = []))"
proof (intro conjI impI)
  assume f: "find_pos (\<lambda>m. id_m m = mid) (machines w) = Some i"
  from find_pos_Some [OF f] show "i < length (machines w)" "id_m (machines w ! i) = mid"
    by simp_all
  from f show "MachineSaleSubscriber_handle (MachineSaleEvent q mid) w =
        (w\<lparr>machines := (machines w)
             [i := (machines w ! i)\<lparr>stockLevel := number_sub (stockLevel (machines w ! i)) q\<rparr>]\<rparr>,
         [], False)"
    by (simp add: MachineSaleSubscriber_handle_def)
  from f show "MachineRefillSubscriber_handle (MachineRefillEvent q mid) w =
        (w\<lparr>machines := (machines w)
             [i := (machines w ! i)\<lparr>stockLevel := number_add (stockLevel (machines w ! i)) q\<rparr>]\<rparr>,
         [], False)"
    by (simp add: MachineRefillSubscriber_handle_def)
next
  assume a: "find_pos (\<lambda>m. id_m m = mid) (machines w) = Some i \<and> stockLevel (machines w ! i) = Fin a
      \<and> safe a \<and> safe q"
  then have f: "find_pos (\<lambda>m. id_m m = mid) (machines w) = Some i"
    and l: "stockLevel (machines w ! i) = Fin a" by simp_all
  from find_pos_Some [OF f] have i: "i < length (machines w)" by simp
  show "stockLevel (machines (fst (MachineSaleSubscriber_handle (MachineSaleEvent q mid) w)) ! i)
           = Fin (a - q)" if "safe (a - q)"
    using f l i that by (simp add: MachineSaleSubscriber_handle_def to_number_safe)
  show "stockLevel (machines (fst (MachineRefillSubscriber_handle (MachineRefillEvent q mid) w)) ! i)
           = Fin (a + q)" if "safe (a + q)"
    using f l i that by (simp add: MachineRefillSubscriber_handle_def to_number_safe)
next
  assume "mid \<in> id_m ` set (machines w)"
  then show "\<exists>i. find_pos (\<lambda>m. id_m m = mid) (machines w) = Some i"
    by (auto simp: find_pos_present)
next
  assume "type e \<noteq> ''sale'' \<or> machineId e \<notin> id_m ` set (machines w2)"
  moreover have "find_pos (\<lambda>m. id_m m = machineId e) (machines w2) = None"
    if "machineId e \<notin> id_m ` set (machines w2)"
    unfolding find_pos_None using that by (auto simp: image_iff)
  ultimately show "MachineSaleSubscriber_handle e w2 = (w2, [], False)"
    by (auto simp: MachineSaleSubscriber_handle_def)
next
  assume "type e \<noteq> ''refill'' \<or> machineId e \<notin> id_m ` set (machines w2)"
  moreover have "find_pos (\<lambda>m. id_m m = machineId e) (machines w2) = None"
    if "machineId e \<notin> id_m ` set (machines w2)"
    unfolding find_pos_None using that by (auto simp: image_iff)
  ultimately show "MachineRefillSubscriber_handle e w2 = (w2, [], False)"
    by (auto simp: MachineRefillSubscriber_handle_def)
next
  assume a: "wired s \<and> \<not> processing s \<and> queue s = [] \<and> \<not> is_alert e3
      \<and> machineId e3 \<notin> id_m ` set (machines (user s))"
  then have "find_pos (\<lambda>m. id_m m = machineId e3) (machines (user s)) = None"
    unfolding find_pos_None by (auto simp: image_iff)
  with a publish_unknown_machine [of s e3 n t]
  show "\<exists>s'. publish (Suc (Suc n)) event_type (handle t) e3 s = Some (s', Returned)
         \<and> user s' = user s \<and> enqueued s' = enqueued s @ [e3] \<and> queue s' = []"
    by blast
qed

text \<open>The program's machines 001, 002, 003 with stock 10 each: events for 002, and
  \<open>Sale(1, "999")\<close>.\<close>

theorem stock_mutation_subscribers_witness:
  "find_pos (\<lambda>m. id_m m = ''002'') (machines (user program)) = Some 1
 \<and> stockLevel (machines (user program) ! 1) = Fin 10
 \<and> safe 10 \<and> safe 3 \<and> safe (10 - 3) \<and> safe (10 + 3)
 \<and> stockLevel (machines (fst (MachineSaleSubscriber_handle (MachineSaleEvent 3 ''002'') (user program))) ! 1)
     = Fin 7
 \<and> stockLevel (machines (fst (MachineRefillSubscriber_handle (MachineRefillEvent 3 ''002'') (user program))) ! 1)
     = Fin 13
 \<and> MachineSaleSubscriber_handle (MachineRefillEvent 3 ''002'') (user program) = (user program, [], False)
 \<and> MachineRefillSubscriber_handle (MachineSaleEvent 1 ''999'') (user program) = (user program, [], False)
 \<and> wired program \<and> \<not> processing program \<and> queue program = []
 \<and> ''999'' \<notin> id_m ` set (machines (user program))
 \<and> (case publish (Suc (Suc 0)) event_type (handle default_threshold) (MachineSaleEvent 1 ''999'') program of
       None \<Rightarrow> False
     | Some (s', r) \<Rightarrow>
         r = Returned \<and> map stockLevel (machines (user s')) = [Fin 10, Fin 10, Fin 10]
         \<and> enqueued s' = [MachineSaleEvent 1 ''999''] \<and> console (user s') = [])"
proof -
  let ?w = "user program"
  note t = stock_mutation_subscribers [of "''002''" ?w 1 3 10 "MachineRefillEvent 3 ''002''" ?w program
      "MachineSaleEvent 1 ''999''" 0 default_threshold]
  note u = stock_mutation_subscribers [of "''002''" ?w 1 3 10 "MachineSaleEvent 1 ''999''" ?w program
      "MachineSaleEvent 1 ''999''" 0 default_threshold]
  have f: "find_pos (\<lambda>m. id_m m = ''002'') (machines ?w) = Some 1"
    by (simp add: program_idle program_machines_def new_Machine_def)
  have l: "stockLevel (machines ?w ! 1) = Fin 10"
    by (simp add: program_idle program_machines_def new_Machine_def)
  have sf: "safe 10" "safe 3" "safe (10 - 3)" "safe (10 + 3)"
    by (simp_all add: safe_def)
  from t f l sf have a: "stockLevel (machines (fst (MachineSaleSubscriber_handle (MachineSaleEvent 3 ''002'') ?w)) ! 1)
     = Fin (10 - 3)"
    by blast
  from t f l sf have b: "stockLevel (machines (fst (MachineRefillSubscriber_handle (MachineRefillEvent 3 ''002'') ?w)) ! 1)
     = Fin (10 + 3)"
    by blast
  have c: "MachineSaleSubscriber_handle (MachineRefillEvent 3 ''002'') ?w = (?w, [], False)"
    using t by simp
  have n: "''999'' \<notin> id_m ` set (machines ?w)"
    by (simp add: program_idle program_machines_def new_Machine_def)
  have d: "MachineRefillSubscriber_handle (MachineSaleEvent 1 ''999'') ?w = (?w, [], False)"
    using u by simp
  have "\<exists>s'. publish (Suc (Suc 0)) event_type (handle default_threshold) (MachineSaleEvent 1 ''999'') program
           = Some (s', Returned)
         \<and> user s' = ?w \<and> enqueued s' = enqueued program @ [MachineSaleEvent 1 ''999''] \<and> queue s' = []"
    using t n program_idle(1,2,3) by simp
  then obtain s' where p: "publish (Suc (Suc 0)) event_type (handle default_threshold) (MachineSaleEvent 1 ''999'') program
           = Some (s', Returned)"
    and e: "user s' = ?w" "enqueued s' = enqueued program @ [MachineSaleEvent 1 ''999'']"
    by blast
  from e have g: "map stockLevel (machines (user s')) = [Fin 10, Fin 10, Fin 10]"
    "enqueued s' = [MachineSaleEvent 1 ''999'']" "console (user s') = []"
    by (simp_all add: program_stock program_idle)
  have a': "stockLevel (machines (fst (MachineSaleSubscriber_handle (MachineSaleEvent 3 ''002'') ?w)) ! 1) = Fin 7"
    using a by simp
  have b': "stockLevel (machines (fst (MachineRefillSubscriber_handle (MachineRefillEvent 3 ''002'') ?w)) ! 1) = Fin 13"
    using b by simp
  from f l sf a' b' c d n g program_idle(1,2,3) show ?thesis unfolding p
    by (simp only: option.case prod.case simp_thms)
qed

section \<open>No clamping\<close>

text \<open>
  Claim C10 says that after a sale of quantity \<open>q\<close> the stock level is exactly the
  previous level minus \<open>q\<close>. Line 85 subtracts doubles. In the program, a sale of 20
  leaves machine 001 at -10; a sale of \<open>2^53 - 1\<close>, which is a number, then leaves it at
  -9007199254741000, not at -10 minus \<open>2^53 - 1\<close>, which is -9007199254741001 and not a
  double.
\<close>

theorem stock_not_clamped_counterexample:
  "is_number 9007199254740991
 \<and> (case publish 3 event_type (handle default_threshold) (MachineSaleEvent 20 ''001'') program of
       None \<Rightarrow> False
     | Some (s1, r1) \<Rightarrow>
         stockLevel (machines (user s1) ! 0) = Fin (- 10)
       \<and> (case publish 3 event_type (handle default_threshold)
                 (MachineSaleEvent 9007199254740991 ''001'') s1 of
             None \<Rightarrow> False
           | Some (s2, r2) \<Rightarrow>
               stockLevel (machines (user s2) ! 0) = Fin (- 9007199254741000)
             \<and> stockLevel (machines (user s2) ! 0) \<noteq> Fin (- 10 - 9007199254740991)))"
  by code_simp

text \<open>
  Claim C10, amended. Stock is not clamped at zero anywhere. The sale subscriber stores
  the double nearest to the previous level minus the quantity, whatever the level is. In
  the program, a top-level \<open>publish\<close> of a sale event for a known machine returns with
  the machines as they were except for that stored level: neither the threshold watcher
  nor the logger, which run afterwards in the same drain, nor the dispatcher change it.
  When the quantity exceeds the level, the level ends negative. When the previous level,
  the quantity and their difference are safe integers, the level ends at exactly the
  previous level minus the quantity.
\<close>

theorem stock_not_clamped:
  "(find_pos (\<lambda>m. id_m m = mid) (machines w) = Some i \<longrightarrow>
      stockLevel (machines (fst (MachineSaleSubscriber_handle (MachineSaleEvent q mid) w)) ! i)
        = number_sub (stockLevel (machines w ! i)) q)
 \<and> (wired s \<and> \<not> processing s \<and> queue s = []
      \<and> find_pos (\<lambda>m. id_m m = mid) (machines (user s)) = Some i \<longrightarrow>
      (\<exists>s'. publish (Suc (Suc (Suc n))) event_type (handle t) (MachineSaleEvent q mid) s = Some (s', Returned)
         \<and> machines (user s') =
             (machines (user s))[i := (machines (user s) ! i)
                \<lparr>stockLevel := number_sub (stockLevel (machines (user s) ! i)) q\<rparr>]
         \<and> stockLevel (machines (user s') ! i) = number_sub (stockLevel (machines (user s) ! i)) q
         \<and> (stockLevel (machines (user s) ! i) = Fin a \<and> a < q \<longrightarrow>
              number_less (stockLevel (machines (user s') ! i)) 0)
         \<and> (stockLevel (machines (user s) ! i) = Fin a \<and> safe a \<and> safe q \<and> safe (a - q) \<longrightarrow>
              stockLevel (machines (user s') ! i) = Fin (a - q))))"
proof (intro conjI impI)
  assume f: "find_pos (\<lambda>m. id_m m = mid) (machines w) = Some i"
  from find_pos_Some [OF f] have "i < length (machines w)" by simp
  with f show "stockLevel (machines (fst (MachineSaleSubscriber_handle (MachineSaleEvent q mid) w)) ! i)
        = number_sub (stockLevel (machines w ! i)) q"
    by (simp add: MachineSaleSubscriber_handle_def)
next
  let ?e = "MachineSaleEvent q mid"
  let ?ms = "machines (user s)"
  let ?new = "number_sub (stockLevel (?ms ! i)) q"
  assume a: "wired s \<and> \<not> processing s \<and> queue s = []
      \<and> find_pos (\<lambda>m. id_m m = mid) (machines (user s)) = Some i"
  then have f: "find_pos (\<lambda>m. id_m m = machineId ?e) ?ms = Some i" by simp
  from find_pos_Some [OF f] have i: "i < length ?ms" by simp
  have na: "\<not> is_alert ?e" by simp
  have lv: "?new = stock_after ?e (stockLevel (?ms ! i))" by simp
  from a have w: "wired s" and np: "\<not> processing s" and q: "queue s = []" by simp_all
  from publish_stock_event [OF w np q na f lv refl, of n t]
  obtain s' where p: "publish (Suc (Suc (Suc n))) event_type (handle t) ?e s = Some (s', Returned)"
    and m: "machines (user s') = ?ms[i := (?ms ! i)\<lparr>stockLevel := ?new\<rparr>]"
    by blast
  from m i have l: "stockLevel (machines (user s') ! i) = ?new" by simp
  have neg: "number_less (stockLevel (machines (user s') ! i)) 0"
    if "stockLevel (?ms ! i) = Fin a \<and> a < q"
    using that l by (simp add: number_sub_negative del: number_sub.simps)
  have ex: "stockLevel (machines (user s') ! i) = Fin (a - q)"
    if "stockLevel (?ms ! i) = Fin a \<and> safe a \<and> safe q \<and> safe (a - q)"
    using that l by (simp add: to_number_safe)
  from p m l neg ex
  show "\<exists>s'. publish (Suc (Suc (Suc n))) event_type (handle t) ?e s = Some (s', Returned)
         \<and> machines (user s') = ?ms[i := (?ms ! i)\<lparr>stockLevel := ?new\<rparr>]
         \<and> stockLevel (machines (user s') ! i) = ?new
         \<and> (stockLevel (?ms ! i) = Fin a \<and> a < q \<longrightarrow> number_less (stockLevel (machines (user s') ! i)) 0)
         \<and> (stockLevel (?ms ! i) = Fin a \<and> safe a \<and> safe q \<and> safe (a - q) \<longrightarrow>
              stockLevel (machines (user s') ! i) = Fin (a - q))"
    by blast
qed

text \<open>Machine 002 of the program holds 10; a sale of 12 leaves it at -2.\<close>

theorem stock_not_clamped_witness:
  "find_pos (\<lambda>m. id_m m = ''002'') (machines (user program)) = Some 1
 \<and> wired program \<and> \<not> processing program \<and> queue program = []
 \<and> stockLevel (machines (user program) ! 1) = Fin 10
 \<and> safe 10 \<and> safe 12 \<and> safe (10 - 12)
 \<and> stockLevel (machines (fst (MachineSaleSubscriber_handle (MachineSaleEvent 12 ''002'') (user program))) ! 1)
     = Fin (- 2)
 \<and> (case publish (Suc (Suc (Suc 0))) event_type (handle default_threshold) (MachineSaleEvent 12 ''002'') program of
       None \<Rightarrow> False
     | Some (s', r) \<Rightarrow>
         r = Returned \<and> stockLevel (machines (user s') ! 1) = Fin (- 2)
       \<and> number_less (stockLevel (machines (user s') ! 1)) 0
       \<and> map id_m (machines (user s')) = [''001'', ''002'', ''003''])"
proof -
  let ?w = "user program"
  note t = stock_not_clamped [of "''002''" ?w 1 12 program 0 default_threshold 10]
  have f: "find_pos (\<lambda>m. id_m m = ''002'') (machines ?w) = Some 1"
    by (simp add: program_idle program_machines_def new_Machine_def)
  have l: "stockLevel (machines ?w ! 1) = Fin 10"
    by (simp add: program_idle program_machines_def new_Machine_def)
  have sf: "safe 10" "safe 12" "safe (10 - 12)" and lt: "(10::int) < 12"
    by (simp_all add: safe_def)
  have sub: "number_sub (Fin 10) 12 = Fin (- 2)"
    using sf(3) by (simp add: to_number_safe)
  from t f have a: "stockLevel (machines (fst (MachineSaleSubscriber_handle (MachineSaleEvent 12 ''002'') ?w)) ! 1)
      = number_sub (stockLevel (machines ?w ! 1)) 12"
    by blast
  have "\<exists>s'. publish (Suc (Suc (Suc 0))) event_type (handle default_threshold) (MachineSaleEvent 12 ''002'') program
           = Some (s', Returned)
         \<and> machines (user s') =
             (machines ?w)[1 := (machines ?w ! 1)\<lparr>stockLevel := number_sub (stockLevel (machines ?w ! 1)) 12\<rparr>]
         \<and> number_less (stockLevel (machines (user s') ! 1)) 0
         \<and> stockLevel (machines (user s') ! 1) = Fin (10 - 12)"
    using t f l sf lt program_idle(1,2,3) by blast
  then obtain s' where p: "publish (Suc (Suc (Suc 0))) event_type (handle default_threshold) (MachineSaleEvent 12 ''002'') program
           = Some (s', Returned)"
    and m: "machines (user s') =
             (machines ?w)[1 := (machines ?w ! 1)\<lparr>stockLevel := number_sub (stockLevel (machines ?w ! 1)) 12\<rparr>]"
    and ng: "number_less (stockLevel (machines (user s') ! 1)) 0"
    and ex: "stockLevel (machines (user s') ! 1) = Fin (10 - 12)"
    by blast
  have ids: "map id_m (machines (user s')) = [''001'', ''002'', ''003'']"
    unfolding m by (simp add: program_idle program_machines_def new_Machine_def)
  have a': "stockLevel (machines (fst (MachineSaleSubscriber_handle (MachineSaleEvent 12 ''002'') ?w)) ! 1) = Fin (- 2)"
    using a l sub by simp
  have ex': "stockLevel (machines (user s') ! 1) = Fin (- 2)"
    using ex by simp
  from f l sf a' ex' ng ids program_idle(1,2,3) show ?thesis unfolding p
    by (simp only: option.case prod.case simp_thms)
qed

section \<open>The threshold watcher\<close>

lemma mem_new_StockWarningSubscriber:
  "x \<in> new_StockWarningSubscriber ms t \<longleftrightarrow> (\<exists>j < length ms. id_m (ms ! j) = x \<and> number_less (stockLevel (ms ! j)) t)"
  by (auto simp: new_StockWarningSubscriber_def in_set_conv_nth)

lemma distinct_ids:
  assumes "distinct (map id_m ms)" and "i < length ms" and "j < length ms" and "id_m (ms ! j) = id_m (ms ! i)"
  shows "j = i"
  using nth_eq_iff_index_eq [OF assms(1), of j i] assms(2-4) by simp

lemma in_sync_member:
  assumes "in_sync t w" and "i < length (machines w)"
  shows "id_m (machines w ! i) \<in> below w \<longleftrightarrow> number_less (stockLevel (machines w ! i)) t"
proof -
  from assms(1) have d: "distinct (map id_m (machines w))"
    and b: "below w = new_StockWarningSubscriber (machines w) t"
    by (simp_all add: in_sync_def)
  show ?thesis
    unfolding b mem_new_StockWarningSubscriber
    using distinct_ids [OF d assms(2)] assms(2) by auto
qed

lemma in_sync_update:
  assumes "in_sync t w" and "i < length (machines w)"
    and "machines w' = (machines w)[i := (machines w ! i)\<lparr>stockLevel := v\<rparr>]"
    and "below w' = (if number_less v t then insert (id_m (machines w ! i)) (below w)
                     else below w - {id_m (machines w ! i)})"
  shows "in_sync t w'"
proof -
  let ?ms = "machines w"
  let ?ms' = "?ms[i := (?ms ! i)\<lparr>stockLevel := v\<rparr>]"
  from assms(1) have d: "distinct (map id_m ?ms)"
    and b: "below w = new_StockWarningSubscriber ?ms t"
    by (simp_all add: in_sync_def)
  have ids: "map id_m ?ms' = map id_m ?ms"
    using assms(2) by (simp add: map_update list_update_same_conv)
  have "below w' = new_StockWarningSubscriber ?ms' t"
  proof (rule set_eqI)
    fix x
    show "x \<in> below w' \<longleftrightarrow> x \<in> new_StockWarningSubscriber ?ms' t"
    proof (cases "x = id_m (?ms ! i)")
      case True
      have "x \<in> new_StockWarningSubscriber ?ms' t \<longleftrightarrow> number_less v t"
      proof
        assume "x \<in> new_StockWarningSubscriber ?ms' t"
        then obtain j where j: "j < length ?ms" "id_m (?ms' ! j) = x" "number_less (stockLevel (?ms' ! j)) t"
          by (auto simp: mem_new_StockWarningSubscriber)
        have "id_m (?ms' ! j) = id_m (?ms ! j)"
          using j(1) assms(2) by (cases "j = i") simp_all
        with j True have "j = i"
          using distinct_ids [OF d assms(2), of j] by simp
        with j(3) assms(2) show "number_less v t" by simp
      next
        assume "number_less v t"
        with assms(2) True show "x \<in> new_StockWarningSubscriber ?ms' t"
          by (auto simp: mem_new_StockWarningSubscriber intro!: exI [of _ i])
      qed
      with True assms(4) show ?thesis by simp
    next
      case False
      have "x \<in> new_StockWarningSubscriber ?ms' t \<longleftrightarrow> x \<in> new_StockWarningSubscriber ?ms t"
      proof -
        have "id_m (?ms' ! j) = x \<and> number_less (stockLevel (?ms' ! j)) t
            \<longleftrightarrow> id_m (?ms ! j) = x \<and> number_less (stockLevel (?ms ! j)) t"
          if "j < length ?ms" for j
          using that False assms(2) by (cases "j = i") auto
        then show ?thesis by (auto simp: mem_new_StockWarningSubscriber)
      qed
      with False assms(4) b show ?thesis by simp
    qed
  qed
  with d ids assms(3) show ?thesis by (simp add: in_sync_def)
qed

lemma in_sync_wire:
  assumes "distinct (map id_m ms)"
  shows "in_sync default_threshold (user (wire ms))"
  using assms by (simp add: in_sync_def wire_def new_service_def)



text \<open>
  Claim C5. The default threshold is 3, and the program wires the watcher with it; the
  set the constructor computes agrees with the machines. In the program (any threshold
  \<open>t\<close>), let the private set of the watcher agree with the machines, and let a sale or
  refill event for a known machine be published on the idle service; \<open>old\<close> is the stock
  level of the machine before, \<open>new\<close> the level that the sale or refill subscriber
  stores for the event. Then \<open>publish\<close> returns, and what was enqueued is the event
  followed by exactly one low-stock warning when \<open>old\<close> was not below the threshold and
  \<open>new\<close> is below, by exactly one stock-ok event when \<open>old\<close> was below and \<open>new\<close> is not,
  and by nothing otherwise; the logger writes the matching line or nothing; and the
  private set agrees with the machines again, so the statement applies to the next
  event. For safe integers the stored level is the level minus the quantity sold, or
  plus the quantity refilled, and "below" is the order of the integers. The last part
  runs the sequence of the \<open>--test\<close> mode on the program: after three sales of 2
  (stock 4) no alert; the fourth (stock 2) brings the one warning; the refill of 3
  (stock 5) the one stock-ok; a further sale of 2 (stock 3) nothing; a sale of 1
  (stock 2) the next warning.
\<close>

theorem threshold_watcher_edge_triggered:
  "default_threshold = 3
 \<and> (distinct (map id_m ms) \<longrightarrow>
      in_sync default_threshold (user (wire ms)) \<and> wired (wire ms)
    \<and> \<not> processing (wire ms) \<and> queue (wire ms) = [])
 \<and> (wired s \<and> \<not> processing s \<and> queue s = [] \<and> in_sync t (user s) \<and> \<not> is_alert e
      \<and> find_pos (\<lambda>m. id_m m = machineId e) (machines (user s)) = Some i
      \<and> old = stockLevel (machines (user s) ! i) \<and> new = stock_after e old \<longrightarrow>
      (\<exists>s'. publish (Suc (Suc (Suc n))) event_type (handle t) e s = Some (s', Returned)
         \<and> stockLevel (machines (user s') ! i) = new
         \<and> enqueued s' = enqueued s @ e #
             (if \<not> number_less old t \<and> number_less new t then [LowStockWarningEvent (machineId e)]
              else if number_less old t \<and> \<not> number_less new t then [StockLevelOkEvent (machineId e)]
              else [])
         \<and> console (user s') = console (user s) @
             (if \<not> number_less old t \<and> number_less new t
              then [''LOW STOCK WARNING for machine ID: '' @ machineId e]
              else if number_less old t \<and> \<not> number_less new t
              then [''STOCK LEVEL OK for machine ID: '' @ machineId e]
              else [])
         \<and> wired s' \<and> \<not> processing s' \<and> queue s' = [] \<and> in_sync t (user s')))
 \<and> (safe a \<and> safe q \<longrightarrow>
      (safe (a - q) \<longrightarrow> stock_after (MachineSaleEvent q m) (Fin a) = Fin (a - q))
    \<and> (safe (a + q) \<longrightarrow> stock_after (MachineRefillEvent q m) (Fin a) = Fin (a + q))
    \<and> (number_less (Fin a) t2 \<longleftrightarrow> a < t2))
 \<and> (case publish_all 3 event_type (handle default_threshold) (take 3 test_sequence) program of
      None \<Rightarrow> False
    | Some (s3, r3) \<Rightarrow>
        map stockLevel (machines (user s3)) = [Fin 4, Fin 10, Fin 10]
      \<and> filter is_alert (enqueued s3) = [] \<and> console (user s3) = []
      \<and> (case publish 3 event_type (handle default_threshold) (test_sequence ! 3) s3 of
            None \<Rightarrow> False
          | Some (s4, r4) \<Rightarrow>
              map stockLevel (machines (user s4)) = [Fin 2, Fin 10, Fin 10]
            \<and> filter is_alert (enqueued s4) = [LowStockWarningEvent ''001'']
            \<and> console (user s4) = [''LOW STOCK WARNING for machine ID: 001'']
            \<and> (case publish 3 event_type (handle default_threshold) (test_sequence ! 4) s4 of
                  None \<Rightarrow> False
                | Some (s5, r5) \<Rightarrow>
                    map stockLevel (machines (user s5)) = [Fin 5, Fin 10, Fin 10]
                  \<and> filter is_alert (enqueued s5) = [LowStockWarningEvent ''001'', StockLevelOkEvent ''001'']
                  \<and> console (user s5) = [''LOW STOCK WARNING for machine ID: 001'',
                                          ''STOCK LEVEL OK for machine ID: 001'']
                  \<and> (case publish 3 event_type (handle default_threshold) (MachineSaleEvent 2 ''001'') s5 of
                        None \<Rightarrow> False
                      | Some (s6, r6) \<Rightarrow>
                          map stockLevel (machines (user s6)) = [Fin 3, Fin 10, Fin 10]
                        \<and> filter is_alert (enqueued s6) =
                            [LowStockWarningEvent ''001'', StockLevelOkEvent ''001'']
                        \<and> (case publish 3 event_type (handle default_threshold) (MachineSaleEvent 1 ''001'') s6 of
                              None \<Rightarrow> False
                            | Some (s7, r7) \<Rightarrow>
                                map stockLevel (machines (user s7)) = [Fin 2, Fin 10, Fin 10]
                              \<and> filter is_alert (enqueued s7) =
                                  [LowStockWarningEvent ''001'', StockLevelOkEvent ''001'',
                                   LowStockWarningEvent ''001''])))))"
  (is "_ \<and> _ \<and> _ \<and> _ \<and> ?scenario")
proof (intro conjI impI)
  show "default_threshold = 3" by (simp add: default_threshold_def)
  show "wired (wire ms)" by (rule wired_wire)
  show "\<not> processing (wire ms)" "queue (wire ms) = []"
    by (simp_all add: wire_def new_service_def)
  show "in_sync default_threshold (user (wire ms))" if "distinct (map id_m ms)"
    using that by (rule in_sync_wire)
next
  let ?w = "user s"
  let ?ms = "machines ?w"
  let ?m = "machineId e"
  assume a: "wired s \<and> \<not> processing s \<and> queue s = [] \<and> in_sync t (user s) \<and> \<not> is_alert e
      \<and> find_pos (\<lambda>m. id_m m = machineId e) (machines (user s)) = Some i
      \<and> old = stockLevel (machines (user s) ! i) \<and> new = stock_after e old"
  then have f: "find_pos (\<lambda>m. id_m m = ?m) ?ms = Some i" and sy: "in_sync t ?w"
    and lv: "new = stock_after e (stockLevel (?ms ! i))" and old: "old = stockLevel (?ms ! i)"
    by simp_all
  from find_pos_Some [OF f] have i: "i < length ?ms" and idm: "id_m (?ms ! i) = ?m" by simp_all
  from in_sync_member [OF sy i] idm old have was: "?m \<in> below ?w \<longleftrightarrow> number_less old t" by simp
  let ?alerts = "if \<not> number_less old t \<and> number_less new t then [LowStockWarningEvent ?m]
              else if number_less old t \<and> \<not> number_less new t then [StockLevelOkEvent ?m] else []"
  have al: "watcher_alerts t (below ?w) ?m new = ?alerts"
    using was by (auto simp: watcher_alerts_def)
  have "\<exists>s'. publish (Suc (Suc (Suc n))) event_type (handle t) e s = Some (s', Returned)
           \<and> queue s' = [] \<and> \<not> processing s' \<and> wired s'
           \<and> machines (user s') = ?ms[i := (?ms ! i)\<lparr>stockLevel := new\<rparr>]
           \<and> below (user s') = (if number_less new t then insert ?m (below ?w) else below ?w - {?m})
           \<and> enqueued s' = enqueued s @ e # ?alerts
           \<and> console (user s') = console ?w @ map alert_line ?alerts"
    using publish_stock_event [OF _ _ _ _ f lv refl, of n t, unfolded al] a by blast
  then obtain s' where p: "publish (Suc (Suc (Suc n))) event_type (handle t) e s = Some (s', Returned)"
    and r: "queue s' = []" "\<not> processing s'" "wired s'"
      "machines (user s') = ?ms[i := (?ms ! i)\<lparr>stockLevel := new\<rparr>]"
      "below (user s') = (if number_less new t then insert ?m (below ?w) else below ?w - {?m})"
      "enqueued s' = enqueued s @ e # ?alerts"
      "console (user s') = console ?w @ map alert_line ?alerts"
    by blast
  have "in_sync t (user s')"
    using sy i r(4) r(5) [folded idm] by (rule in_sync_update)
  moreover have "stockLevel (machines (user s') ! i) = new"
    using r(4) i by simp
  moreover have "console (user s') = console ?w @
             (if \<not> number_less old t \<and> number_less new t
              then [''LOW STOCK WARNING for machine ID: '' @ ?m]
              else if number_less old t \<and> \<not> number_less new t
              then [''STOCK LEVEL OK for machine ID: '' @ ?m]
              else [])"
    using r(7) by simp
  ultimately show "\<exists>s'. publish (Suc (Suc (Suc n))) event_type (handle t) e s = Some (s', Returned)
         \<and> stockLevel (machines (user s') ! i) = new
         \<and> enqueued s' = enqueued s @ e # ?alerts
         \<and> console (user s') = console ?w @
             (if \<not> number_less old t \<and> number_less new t
              then [''LOW STOCK WARNING for machine ID: '' @ ?m]
              else if number_less old t \<and> \<not> number_less new t
              then [''STOCK LEVEL OK for machine ID: '' @ ?m]
              else [])
         \<and> wired s' \<and> \<not> processing s' \<and> queue s' = [] \<and> in_sync t (user s')"
    using p r(1,2,3,6) by blast
next
  assume "safe a \<and> safe q"
  show "stock_after (MachineSaleEvent q m) (Fin a) = Fin (a - q)" if "safe (a - q)"
    using that by (simp add: to_number_safe)
  show "stock_after (MachineRefillEvent q m) (Fin a) = Fin (a + q)" if "safe (a + q)"
    using that by (simp add: to_number_safe)
  show "number_less (Fin a) t2 \<longleftrightarrow> a < t2" by simp
next
  show ?scenario by code_simp
qed

text \<open>Machine 001 of the program, a sale of 8: from 10 to 2, one warning.\<close>

theorem threshold_watcher_edge_triggered_witness:
  "distinct (map id_m program_machines)
 \<and> wired program \<and> \<not> processing program \<and> queue program = []
 \<and> in_sync default_threshold (user program)
 \<and> \<not> is_alert (MachineSaleEvent 8 ''001'')
 \<and> find_pos (\<lambda>m. id_m m = ''001'') (machines (user program)) = Some 0
 \<and> stockLevel (machines (user program) ! 0) = Fin 10
 \<and> safe 10 \<and> safe 8 \<and> safe (10 - 8)
 \<and> stock_after (MachineSaleEvent 8 ''001'') (Fin 10) = Fin 2
 \<and> (case publish (Suc (Suc (Suc 0))) event_type (handle default_threshold) (MachineSaleEvent 8 ''001'') program of
       None \<Rightarrow> False
     | Some (s', r) \<Rightarrow>
         r = Returned \<and> stockLevel (machines (user s') ! 0) = Fin 2
       \<and> enqueued s' = [MachineSaleEvent 8 ''001'', LowStockWarningEvent ''001'']
       \<and> console (user s') = [''LOW STOCK WARNING for machine ID: 001''])"
proof -
  let ?e = "MachineSaleEvent 8 ''001''"
  note t = threshold_watcher_edge_triggered [of program_machines program default_threshold ?e 0
      "Fin 10" "Fin 2" 0 10 8 "''001''" default_threshold]
  have d: "distinct (map id_m program_machines)" by (simp add: program_ids)
  have sy: "in_sync default_threshold (user program)"
    using t d unfolding program_def by blast
  have na: "\<not> is_alert ?e" by simp
  have f: "find_pos (\<lambda>m. id_m m = machineId ?e) (machines (user program)) = Some 0"
    by (simp add: program_idle program_machines_def new_Machine_def)
  have old: "Fin 10 = stockLevel (machines (user program) ! 0)"
    by (simp add: program_idle program_machines_def new_Machine_def)
  have sf: "safe 10" "safe 8" "safe (10 - 8)" by (simp_all add: safe_def)
  have "stock_after ?e (Fin 10) = Fin (10 - 8)"
    using t sf by blast
  then have new: "Fin 2 = stock_after ?e (Fin 10)" by simp
  have th: "\<not> number_less (Fin 10) default_threshold \<and> number_less (Fin 2) default_threshold"
    by (simp add: default_threshold_def)
  have "\<exists>s'. publish (Suc (Suc (Suc 0))) event_type (handle default_threshold) ?e program = Some (s', Returned)
         \<and> stockLevel (machines (user s') ! 0) = Fin 2
         \<and> enqueued s' = enqueued program @ ?e #
             (if \<not> number_less (Fin 10) default_threshold \<and> number_less (Fin 2) default_threshold
              then [LowStockWarningEvent (machineId ?e)]
              else if number_less (Fin 10) default_threshold \<and> \<not> number_less (Fin 2) default_threshold
              then [StockLevelOkEvent (machineId ?e)]
              else [])
         \<and> console (user s') = console (user program) @
             (if \<not> number_less (Fin 10) default_threshold \<and> number_less (Fin 2) default_threshold
              then [''LOW STOCK WARNING for machine ID: '' @ machineId ?e]
              else if number_less (Fin 10) default_threshold \<and> \<not> number_less (Fin 2) default_threshold
              then [''STOCK LEVEL OK for machine ID: '' @ machineId ?e]
              else [])"
    using t program_idle(1,2,3) sy na f old new by blast
  then obtain s' where p: "publish (Suc (Suc (Suc 0))) event_type (handle default_threshold) ?e program = Some (s', Returned)"
    and r: "stockLevel (machines (user s') ! 0) = Fin 2"
      "enqueued s' = [?e, LowStockWarningEvent ''001'']"
      "console (user s') = [''LOW STOCK WARNING for machine ID: 001'']"
    unfolding if_P [OF th] by (auto simp: program_idle)
  have f': "find_pos (\<lambda>m. id_m m = ''001'') (machines (user program)) = Some 0"
    using f by simp
  from d sy na f' old [symmetric] sf new [symmetric] r program_idle(1,2,3) show ?thesis unfolding p
    by (simp only: option.case prod.case simp_thms)
qed

section \<open>Termination in the program\<close>

lemma cascade_weight:
  assumes "wired s"
  shows "sum_list (map weight (published (snd (run_handlers (handle t) e (subscribers_of s (type e)) w))))
           < weight e"
proof (cases "is_alert e")
  case True
  then have "subscribers_of s (type e) = [AlertLogger]"
    using wired_subscribers_of [OF assms, of e] by (cases e) simp_all
  then have "published (snd (run_handlers (handle t) e (subscribers_of s (type e)) w)) = []"
    by (simp only: run_alert [OF True] snd_conv published.simps)
  with True show ?thesis by (simp add: weight_def)
next
  case False
  let ?subs = "case e of MachineSaleEvent q m \<Rightarrow> [SaleSubscriber, StockWarning]
                 | _ \<Rightarrow> [RefillSubscriber, StockWarning]"
  have sub: "subscribers_of s (type e) = ?subs"
    using False wired_subscribers_of [OF assms, of e] by (cases e) simp_all
  show ?thesis
  proof (cases "find_pos (\<lambda>m. id_m m = machineId e) (machines w)")
    case None
    have "run_handlers (handle t) e ?subs w = (w, [])"
      using False run_stock_unknown [OF False None, of t] by (cases e) simp_all
    with False show ?thesis unfolding sub by (simp add: weight_def)
  next
    case (Some i)
    obtain w' cs where r: "run_handlers (handle t) e ?subs w = (w', cs)"
      by (cases "run_handlers (handle t) e ?subs w") auto
    from run_stock_known(4) [OF False Some refl r refl]
    have "sum_list (map weight (published cs)) \<le> 1"
      by (simp add: watcher_alerts_def weight_def)
    with False show ?thesis unfolding sub r by (simp add: weight_def)
  qed
qed

lemma drain_wired_terminates:
  assumes "wired s" and "processing s" and "sum_list (map weight (queue s)) < n"
  shows "\<exists>s'. drain n event_type (handle t) s = Some (s', Returned) \<and> queue s' = [] \<and> processing s'
           \<and> wired s'"
  using assms
proof (induction n arbitrary: s)
  case 0
  then show ?case by simp
next
  case (Suc n)
  show ?case
  proof (cases "queue s")
    case Nil
    with Suc.prems show ?thesis by simp
  next
    case (Cons e rest)
    let ?s2 = "iteration (handle t) e (type e) s"
    have d: "drain (Suc n) event_type (handle t) s = drain n event_type (handle t) ?s2"
      using Suc.prems(2) Cons by (intro drain_iteration) (simp_all add: event_type_def)
    note it = iteration_wired [OF Suc.prems(1) Cons, of t "type e"]
    have "sum_list (map weight (queue ?s2)) < sum_list (map weight (queue s))"
      unfolding it(3) Cons using cascade_weight [OF Suc.prems(1), of t e "user s"] by simp
    with Suc.prems(3) have "sum_list (map weight (queue ?s2)) < n" by simp
    moreover have "processing ?s2" using Suc.prems(2) by simp
    ultimately show ?thesis unfolding d using it(1) by (intro Suc.IH)
  qed
qed

text \<open>
  Claim C9. In the program, every top-level \<open>publish\<close> returns: a bound on the iterations
  above the weight of the pending events suffices (2 for a sale or refill event, 1 for an
  alert; 3 iterations for a \<open>publish\<close> on an empty queue), and it returns normally with the
  queue empty and the subscriptions as they were. The reason is in the other parts: the
  events a handler publishes are alerts, at most one per call; only the threshold watcher
  publishes, and only for sale and refill events; and alerts go to the logger alone.
\<close>

theorem program_publish_terminates:
  "wired (wire ms) \<and> \<not> processing (wire ms) \<and> queue (wire ms) = []
 \<and> (wired s \<and> \<not> processing s \<and> sum_list (map weight (queue s @ [e])) < n \<longrightarrow>
      (\<exists>s'. publish n event_type (handle t) e s = Some (s', Returned)
         \<and> queue s' = [] \<and> \<not> processing s' \<and> wired s'))
 \<and> (\<forall>a \<in> set (published (fst (snd (handle t h e2 w)))). is_alert a)
 \<and> length (fst (snd (handle t h e2 w))) \<le> 1
 \<and> (h \<noteq> StockWarning \<or> is_alert e2 \<longrightarrow> fst (snd (handle t h e2 w)) = [])
 \<and> (wired s2 \<and> is_alert e2 \<longrightarrow> subscribers_of s2 (type e2) = [AlertLogger])"
proof (intro conjI impI)
  show "wired (wire ms)" by (rule wired_wire)
  show "\<not> processing (wire ms)" "queue (wire ms) = []"
    by (simp_all add: wire_def new_service_def)
next
  assume a: "wired s \<and> \<not> processing s \<and> sum_list (map weight (queue s @ [e])) < n"
  let ?s1 = "s\<lparr>queue := queue s @ [e], enqueued := enqueued s @ [e], processing := True\<rparr>"
  have "\<exists>s'. drain n event_type (handle t) ?s1 = Some (s', Returned) \<and> queue s' = [] \<and> processing s'
           \<and> wired s'"
    using a by (intro drain_wired_terminates) simp_all
  then obtain s2 where d: "drain n event_type (handle t) ?s1 = Some (s2, Returned)"
    and r: "queue s2 = []" "wired s2"
    by blast
  from a have np: "\<not> processing s" by simp
  have "publish n event_type (handle t) e s = Some (s2\<lparr>processing := False\<rparr>, Returned)"
    by (simp only: publish_idle [OF np] d option.case prod.case)
  with r show "\<exists>s'. publish n event_type (handle t) e s = Some (s', Returned)
         \<and> queue s' = [] \<and> \<not> processing s' \<and> wired s'"
    by simp
next
  show "\<forall>a \<in> set (published (fst (snd (handle t h e2 w)))). is_alert a"
    by (cases h)
       (auto simp: MachineSaleSubscriber_handle_def MachineRefillSubscriber_handle_def
          StockWarningSubscriber_handle_def StockAlertLogger_handle_def Let_def
          split: option.splits if_splits)
  show "length (fst (snd (handle t h e2 w))) \<le> 1"
    by (cases h)
       (auto simp: MachineSaleSubscriber_handle_def MachineRefillSubscriber_handle_def
          StockWarningSubscriber_handle_def StockAlertLogger_handle_def Let_def
          split: option.splits if_splits)
  show "fst (snd (handle t h e2 w)) = []" if "h \<noteq> StockWarning \<or> is_alert e2"
    using that
    by (cases h; cases e2)
       (auto simp: MachineSaleSubscriber_handle_def MachineRefillSubscriber_handle_def
          StockWarningSubscriber_handle_def StockAlertLogger_handle_def Let_def
          split: option.splits if_splits)
  show "subscribers_of s2 (type e2) = [AlertLogger]" if "wired s2 \<and> is_alert e2"
    using that wired_subscribers_of [of s2 e2] by (cases e2) simp_all
qed

theorem program_publish_terminates_witness:
  "wired program \<and> \<not> processing program
 \<and> sum_list (map weight (queue program @ [MachineSaleEvent 8 ''001''])) < 3
 \<and> (case publish 3 event_type (handle default_threshold) (MachineSaleEvent 8 ''001'') program of
       None \<Rightarrow> False
     | Some (s', r) \<Rightarrow> r = Returned \<and> queue s' = [] \<and> \<not> processing s')
 \<and> is_alert (LowStockWarningEvent ''001'')
 \<and> subscribers_of program (type (LowStockWarningEvent ''001'')) = [AlertLogger]
 \<and> fst (snd (handle default_threshold AlertLogger (LowStockWarningEvent ''001'') (user program))) = []"
proof -
  let ?e = "MachineSaleEvent 8 ''001''"
  let ?a = "LowStockWarningEvent ''001''"
  note t = program_publish_terminates [of program_machines program ?e 3 default_threshold AlertLogger ?a
      "user program" program]
  have w: "sum_list (map weight (queue program @ [?e])) < 3"
    by (simp add: program_idle weight_def)
  have "\<exists>s'. publish 3 event_type (handle default_threshold) ?e program = Some (s', Returned)
         \<and> queue s' = [] \<and> \<not> processing s' \<and> wired s'"
    using t program_idle(1,2) w by blast
  then obtain s' where p: "publish 3 event_type (handle default_threshold) ?e program = Some (s', Returned)"
    and r: "queue s' = []" "\<not> processing s'"
    by blast
  have al: "is_alert ?a" by simp
  have l: "subscribers_of program (type ?a) = [AlertLogger]"
    using t program_idle(1) al by blast
  have c: "fst (snd (handle default_threshold AlertLogger ?a (user program))) = []"
    using t al by blast
  from program_idle(1,2) w r al l c show ?thesis unfolding p
    by (simp only: option.case prod.case simp_thms)
qed

end
